theory Spec2Isabelle
  imports Complex_Main "HOL-Library.Sublist"
begin

section \<open>Identifier extraction: \<open>extract_video_id\<close> (app.py, lines 27-44)\<close>

text \<open>
  Python strings are modelled as \<^typ>\<open>string\<close>. The two regular expressions of
  \<open>extract_video_id\<close> only name ASCII characters, so every other character (or byte of an
  encoded character) behaves alike: it is neither part of a marker nor a member of the
  character class.
\<close>

text \<open>The character class \<^verbatim>\<open>[A-Za-z0-9_-]\<close>.\<close>

definition idchar :: "char \<Rightarrow> bool" where
  "idchar c =
     (let n = (of_char c :: nat)
      in (65 \<le> n \<and> n \<le> 90) \<or> (97 \<le> n \<and> n \<le> 122) \<or> (48 \<le> n \<and> n \<le> 57)
         \<or> c = CHR ''_'' \<or> c = CHR ''-'')"

text \<open>The capture group \<^verbatim>\<open>([A-Za-z0-9_-]{11})\<close>: exactly eleven characters of the class.\<close>

definition id_group :: "string \<Rightarrow> bool" where
  "id_group g = (length g = 11 \<and> list_all idchar g)"

text \<open>
  The alternatives of the non-capturing group
  \<^verbatim>\<open>(?:v=|v\/|embed\/|youtu\.be\/|\/v\/)\<close>, in the order in which the backtracking
  matcher tries them.
\<close>

definition markers :: "string list" where
  "markers = [''v='', ''v/'', ''embed/'', ''youtu.be/'', ''/v/'']"

text \<open>
  Matching the first pattern at the start of \<open>s\<close>: the first alternative that is a prefix
  of \<open>s\<close> and is followed by eleven class characters wins; an alternative that is not
  followed by them is given up and the next one is tried.
\<close>

fun try_markers :: "string list \<Rightarrow> string \<Rightarrow> string option" where
  "try_markers [] s = None"
| "try_markers (m # ms) s =
     (if prefix m s \<and> id_group (take 11 (drop (length m) s))
      then Some (take 11 (drop (length m) s))
      else try_markers ms s)"

text \<open>
  \<^verbatim>\<open>re.search\<close> with the first pattern: the leftmost position at which the pattern
  matches; the result is group 1.
\<close>

fun search_marker :: "string \<Rightarrow> string option" where
  "search_marker [] = try_markers markers []"
| "search_marker (c # cs) =
     (case try_markers markers (c # cs) of
        Some g \<Rightarrow> Some g
      | None \<Rightarrow> search_marker cs)"

text \<open>
  Matching the second pattern \<^verbatim>\<open>([A-Za-z0-9_-]{11})$\<close> at the start of \<open>s\<close>. Without
  the MULTILINE flag, \<^verbatim>\<open>$\<close> matches at the end of the string and also just before a
  newline that is the last character of the string.
\<close>

definition tail_at :: "string \<Rightarrow> bool" where
  "tail_at s = (id_group (take 11 s) \<and> (drop 11 s = [] \<or> drop 11 s = [CHR 0x0A]))"

fun search_tail :: "string \<Rightarrow> string option" where
  "search_tail [] = (if tail_at [] then Some (take 11 []) else None)"
| "search_tail (c # cs) =
     (if tail_at (c # cs) then Some (take 11 (c # cs)) else search_tail cs)"

text \<open>
  The loop over the two patterns returns the group of the first pattern that matches.
  The argument is \<open>None\<close> for Python's \<open>None\<close>; \<^verbatim>\<open>if not url\<close> holds of \<open>None\<close> and
  of the empty string.
\<close>

definition extract_video_id :: "string option \<Rightarrow> string option" where
  "extract_video_id url =
     (case url of
        None \<Rightarrow> None
      | Some s \<Rightarrow>
          if s = [] then None
          else (case search_marker s of
                  Some g \<Rightarrow> Some g
                | None \<Rightarrow> search_tail s))"

text \<open>
  Vocabulary for stating what the fallback pattern returns: the string without one final
  newline, and the last eleven characters of a string.
\<close>

definition chomp :: "string \<Rightarrow> string" where
  "chomp s = (if s \<noteq> [] \<and> last s = CHR 0x0A then butlast s else s)"

definition last11 :: "string \<Rightarrow> string" where
  "last11 s = drop (length s - 11) s"


section \<open>Decoded JSON values and Python exceptions\<close>

text \<open>
  The values that \<^verbatim>\<open>resp.json()\<close> and \<^verbatim>\<open>request.get_json()\<close> produce. An object is
  kept as the list of its entries, one per key, and looked up with \<^const>\<open>map_of\<close>. A
  number is an integer or, when written with a fraction or an exponent, a float, kept as
  a real number.
\<close>

datatype json =
    JNull
  | JBool bool
  | JInt int
  | JFloat real
  | JStr string
  | JArr "json list"
  | JObj "(string \<times> json) list"

text \<open>Python's truth value of a decoded value, as tested by \<^verbatim>\<open>if not x\<close> and \<^verbatim>\<open>x or y\<close>.\<close>

fun truthy :: "json \<Rightarrow> bool" where
  "truthy JNull = False"
| "truthy (JBool b) = b"
| "truthy (JInt n) = (n \<noteq> 0)"
| "truthy (JFloat r) = (r \<noteq> 0)"
| "truthy (JStr s) = (s \<noteq> [])"
| "truthy (JArr xs) = (xs \<noteq> [])"
| "truthy (JObj kvs) = (kvs \<noteq> [])"

text \<open>
  The two \<^verbatim>\<open>RuntimeError\<close>s that \<open>fetch_all_comments\<close> raises. The second one is
  raised with the text \<^verbatim>\<open>f"YouTube API error: {message}"\<close>; the model keeps the
  interpolated value \<open>message\<close> itself.
\<close>

datatype runtime_error =
    Invalid_JSON_response
  | YouTube_API_error json

datatype py_exception =
    KeyError
  | TypeError
  | AttributeError
  | RequestException
  | RuntimeError runtime_error

text \<open>
  \<^verbatim>\<open>d.get(k, default)\<close>: only a dict has the method; on any other value the attribute
  lookup raises \<^verbatim>\<open>AttributeError\<close>.
\<close>

definition dict_get :: "json \<Rightarrow> string \<Rightarrow> json \<Rightarrow> py_exception + json" where
  "dict_get d k dflt =
     (case d of
        JObj kvs \<Rightarrow> (case map_of kvs k of Some v \<Rightarrow> Inr v | None \<Rightarrow> Inr dflt)
      | _ \<Rightarrow> Inl AttributeError)"

text \<open>
  \<^verbatim>\<open>v[k]\<close> with a string key: a dict raises \<^verbatim>\<open>KeyError\<close> when the key is missing; a
  list or a string does not accept a string index and the other values are not
  subscriptable, which is a \<^verbatim>\<open>TypeError\<close>.
\<close>

definition getitem :: "json \<Rightarrow> string \<Rightarrow> py_exception + json" where
  "getitem v k =
     (case v of
        JObj kvs \<Rightarrow> (case map_of kvs k of Some x \<Rightarrow> Inr x | None \<Rightarrow> Inl KeyError)
      | _ \<Rightarrow> Inl TypeError)"

fun getpath :: "json \<Rightarrow> string list \<Rightarrow> py_exception + json" where
  "getpath v [] = Inr v"
| "getpath v (k # ks) = (case getitem v k of Inl e \<Rightarrow> Inl e | Inr x \<Rightarrow> getpath x ks)"

text \<open>
  \<^verbatim>\<open>for it in v\<close>: a list yields its elements, a dict its keys, a string its
  characters; the other values are not iterable.
\<close>

definition py_iter :: "json \<Rightarrow> py_exception + json list" where
  "py_iter v =
     (case v of
        JArr xs \<Rightarrow> Inr xs
      | JObj kvs \<Rightarrow> Inr (map (\<lambda>kv. JStr (fst kv)) kvs)
      | JStr s \<Rightarrow> Inr (map (\<lambda>c. JStr [c]) s)
      | _ \<Rightarrow> Inl TypeError)"

text \<open>Decimal text of an integer, as an f-string renders it.\<close>

fun str_nat :: "nat \<Rightarrow> string" where
  "str_nat n =
     (if n < 10 then [''0123456789'' ! n]
      else str_nat (n div 10) @ [''0123456789'' ! (n mod 10)])"

definition str_int :: "int \<Rightarrow> string" where
  "str_int i = (if i < 0 then CHR ''-'' # str_nat (nat (- i)) else str_nat (nat i))"

declare str_nat.simps [simp del]


section \<open>Paginated fetch: \<open>fetch_all_comments\<close> (app.py, lines 46-91)\<close>

text \<open>
  The query parameters (the dict \<open>params\<close>, whose \<^verbatim>\<open>pageToken\<close> entry is absent until
  the first cursor is stored), the request sent by \<^verbatim>\<open>session.get\<close>, and what the loop
  reads of a response: its status code and its decoded body, \<open>None\<close> when
  \<^verbatim>\<open>resp.json()\<close> raises \<^verbatim>\<open>ValueError\<close>.
\<close>

record params =
  part :: string
  videoId :: string
  textFormat :: string
  key :: json
  maxResults :: int
  pageToken :: "json option"

record request =
  base_url :: string
  user_agent :: string
  query :: params
  timeout :: nat

record response =
  status_code :: int
  body :: "json option"

text \<open>
  The remote service: from its state and a request it gives the outcome of
  \<^verbatim>\<open>session.get\<close>, a response or the exception raised by the transport (a timeout, a
  refused connection), and its next state.
\<close>

type_synonym 'w transport = "'w \<Rightarrow> request \<Rightarrow> (py_exception + response) \<times> 'w"

text \<open>
  \<^verbatim>\<open>it["snippet"]["topLevelComment"]["snippet"]["textDisplay"]\<close> (line 80).
\<close>

definition text_display :: "json \<Rightarrow> py_exception + json" where
  "text_display it = getpath it [''snippet'', ''topLevelComment'', ''snippet'', ''textDisplay'']"

text \<open>
  The \<^verbatim>\<open>for\<close> loop over the items (lines 78-83): the text is appended to \<open>comments\<close>;
  a \<^verbatim>\<open>KeyError\<close> is caught and the loop goes on with the next item; any other exception
  leaves the loop and the function.
\<close>

fun collect :: "json list \<Rightarrow> json list \<Rightarrow> py_exception + json list" where
  "collect [] comments = Inr comments"
| "collect (it # its) comments =
     (case text_display it of
        Inr txt \<Rightarrow> collect its (comments @ [txt])
      | Inl e \<Rightarrow> if e = KeyError then collect its comments else Inl e)"

text \<open>
  One round of the \<^verbatim>\<open>while\<close> loop after the response has arrived (lines 66-85): the
  comments collected so far extended by this page, and the value of \<open>next_token\<close>; or
  the exception raised.
\<close>

definition process_page :: "response \<Rightarrow> json list \<Rightarrow> py_exception + json list \<times> json" where
  "process_page resp comments =
     (case body resp of
        None \<Rightarrow> Inl (RuntimeError Invalid_JSON_response)
      | Some data \<Rightarrow>
          if status_code resp \<noteq> 200 then
            (case dict_get data ''error'' (JObj []) of
               Inl e \<Rightarrow> Inl e
             | Inr err \<Rightarrow>
                 (case dict_get err ''message'' (JStr (''HTTP '' @ str_int (status_code resp))) of
                    Inl e \<Rightarrow> Inl e
                  | Inr message \<Rightarrow> Inl (RuntimeError (YouTube_API_error message))))
          else
            (case dict_get data ''items'' (JArr []) of
               Inl e \<Rightarrow> Inl e
             | Inr items \<Rightarrow>
                 (case py_iter items of
                    Inl e \<Rightarrow> Inl e
                  | Inr its \<Rightarrow>
                      (case collect its comments of
                         Inl e \<Rightarrow> Inl e
                       | Inr comments' \<Rightarrow>
                           (case dict_get data ''nextPageToken'' JNull of
                              Inl e \<Rightarrow> Inl e
                            | Inr next_token \<Rightarrow> Inr (comments', next_token))))))"

definition make_request :: "params \<Rightarrow> request" where
  "make_request ps =
     \<lparr>base_url = ''https://www.googleapis.com/youtube/v3/commentThreads'',
      user_agent = ''fetchora/1.0'', query = ps, timeout = 15\<rparr>"

text \<open>
  The \<^verbatim>\<open>while True\<close> loop (lines 64-89). It has no bound, so it is a partial function:
  \<open>None\<close> means that the loop runs forever. A result is the list of comments or the
  exception, together with the state of the service and the requests sent, in order.
\<close>

partial_function (option) fetch_loop ::
  "'w transport \<Rightarrow> params \<Rightarrow> json list \<Rightarrow> 'w \<Rightarrow> request list \<Rightarrow>
     ((py_exception + json list) \<times> 'w \<times> request list) option" where
  "fetch_loop get ps comments w sent =
     (case get w (make_request ps) of
        (Inl e, w') \<Rightarrow> Some (Inl e, w', sent @ [make_request ps])
      | (Inr resp, w') \<Rightarrow>
          (case process_page resp comments of
             Inl e \<Rightarrow> Some (Inl e, w', sent @ [make_request ps])
           | Inr (comments', next_token) \<Rightarrow>
               if \<not> truthy next_token then Some (Inr comments', w', sent @ [make_request ps])
               else fetch_loop get (ps\<lparr>pageToken := Some next_token\<rparr>) comments' w'
                      (sent @ [make_request ps])))"

text \<open>The dict \<open>params\<close> as it is before the loop (lines 53-59).\<close>

definition initial_params :: "string \<Rightarrow> json \<Rightarrow> int \<Rightarrow> params" where
  "initial_params video_id api_key max_results_per_page =
     \<lparr>part = ''snippet'', videoId = video_id, textFormat = ''plainText'', key = api_key,
      maxResults = max_results_per_page, pageToken = None\<rparr>"

definition fetch_all_comments ::
  "'w transport \<Rightarrow> 'w \<Rightarrow> string \<Rightarrow> json \<Rightarrow> int \<Rightarrow>
     ((py_exception + json list) \<times> 'w \<times> request list) option" where
  "fetch_all_comments get w video_id api_key max_results_per_page =
     fetch_loop get (initial_params video_id api_key max_results_per_page) [] w []"

subsection \<open>Vocabulary for pages and for scripted services\<close>

text \<open>
  A service that answers its \<open>k\<close>-th request with \<open>srv k\<close>, whatever the request; its
  state is the number of requests answered. A script is such a service that serves a
  finite list of responses and lets every later request fail in the transport.
\<close>

definition stream_get :: "(nat \<Rightarrow> py_exception + response) \<Rightarrow> nat transport" where
  "stream_get srv k req = (srv k, Suc k)"

definition script :: "response list \<Rightarrow> nat \<Rightarrow> py_exception + response" where
  "script pages k = (if k < length pages then Inr (pages ! k) else Inl RequestException)"

text \<open>
  The continuation cursor of a page: the value of \<^verbatim>\<open>data.get("nextPageToken")\<close>, which
  is \<open>None\<close> when the member is absent.
\<close>

definition next_page_token :: "response \<Rightarrow> json" where
  "next_page_token resp =
     (case body resp of
        Some (JObj kvs) \<Rightarrow> (case map_of kvs ''nextPageToken'' of Some v \<Rightarrow> v | None \<Rightarrow> JNull)
      | _ \<Rightarrow> JNull)"

text \<open>The items of a page, and the texts that can be extracted from them, in item order.\<close>

definition page_items :: "response \<Rightarrow> json list" where
  "page_items resp =
     (case body resp of
        Some (JObj kvs) \<Rightarrow>
          (case map_of kvs ''items'' of
             None \<Rightarrow> []
           | Some items \<Rightarrow> (case py_iter items of Inr its \<Rightarrow> its | Inl e \<Rightarrow> []))
      | _ \<Rightarrow> [])"

definition text_opt :: "json \<Rightarrow> json option" where
  "text_opt it = (case text_display it of Inr txt \<Rightarrow> Some txt | Inl e \<Rightarrow> None)"

definition extractable_texts :: "response \<Rightarrow> json list" where
  "extractable_texts resp = List.map_filter text_opt (page_items resp)"

text \<open>
  A value is well nested along a path of keys when every member on the path is either
  absent or, as long as a further key is to be looked up in it, an object.
\<close>

fun well_nested :: "json \<Rightarrow> string list \<Rightarrow> bool" where
  "well_nested v [] = True"
| "well_nested v (k # ks) =
     (case v of
        JObj kvs \<Rightarrow> (case map_of kvs k of None \<Rightarrow> True | Some x \<Rightarrow> well_nested x ks)
      | _ \<Rightarrow> False)"

definition item_ok :: "json \<Rightarrow> bool" where
  "item_ok it = well_nested it [''snippet'', ''topLevelComment'', ''snippet'', ''textDisplay'']"

text \<open>
  A success page: status 200, the body an object, and its \<^verbatim>\<open>items\<close> member absent or an
  iterable of well nested items.
\<close>

definition page_ok :: "response \<Rightarrow> bool" where
  "page_ok resp =
     (status_code resp = 200 \<and>
      (case body resp of
         Some (JObj kvs) \<Rightarrow>
           (case map_of kvs ''items'' of
              None \<Rightarrow> True
            | Some items \<Rightarrow> (case py_iter items of Inr its \<Rightarrow> list_all item_ok its | Inl e \<Rightarrow> False))
       | _ \<Rightarrow> False))"

text \<open>
  What an answer of the service means for the loop: it goes on after a success page with
  a cursor that Python takes as true, and it returns after a success page without one.
\<close>

definition continues :: "py_exception + response \<Rightarrow> bool" where
  "continues r =
     (case r of Inr resp \<Rightarrow> page_ok resp \<and> truthy (next_page_token resp) | Inl e \<Rightarrow> False)"

definition finishes :: "py_exception + response \<Rightarrow> bool" where
  "finishes r =
     (case r of Inr resp \<Rightarrow> page_ok resp \<and> \<not> truthy (next_page_token resp) | Inl e \<Rightarrow> False)"

text \<open>
  The requests that a run over the given pages sends: each request after the first
  carries the cursor of the page before it.
\<close>

fun params_after :: "params \<Rightarrow> response list \<Rightarrow> params" where
  "params_after ps [] = ps"
| "params_after ps (r # rs) = params_after (ps\<lparr>pageToken := Some (next_page_token r)\<rparr>) rs"

fun sent_requests :: "params \<Rightarrow> response list \<Rightarrow> request list" where
  "sent_requests ps [] = []"
| "sent_requests ps (r # rs) =
     make_request ps # sent_requests (ps\<lparr>pageToken := Some (next_page_token r)\<rparr>) rs"

text \<open>
  A failure page whose error payload can be read: the status is not 200, the body is an
  object, and its \<^verbatim>\<open>error\<close> member is absent or an object. Its message is the
  \<^verbatim>\<open>message\<close> member of the error payload, and \<^verbatim>\<open>HTTP <status>\<close> when there is none.
\<close>

definition failure_page :: "response \<Rightarrow> bool" where
  "failure_page resp =
     (status_code resp \<noteq> 200 \<and>
      (case body resp of
         Some (JObj kvs) \<Rightarrow>
           (case map_of kvs ''error'' of None \<Rightarrow> True | Some (JObj e) \<Rightarrow> True | Some other \<Rightarrow> False)
       | _ \<Rightarrow> False))"

definition failure_message :: "response \<Rightarrow> json" where
  "failure_message resp =
     (let generic = JStr (''HTTP '' @ str_int (status_code resp))
      in case body resp of
           Some (JObj kvs) \<Rightarrow>
             (case map_of kvs ''error'' of
                Some (JObj e) \<Rightarrow> (case map_of e ''message'' of Some m \<Rightarrow> m | None \<Rightarrow> generic)
              | _ \<Rightarrow> generic)
         | _ \<Rightarrow> generic)"


text \<open>
  Sample data for the examples: a comment thread that holds a text, and a response with
  status 200, a list of items and, optionally, a cursor.
\<close>

definition thread_item :: "string \<Rightarrow> json" where
  "thread_item s =
     JObj [(''snippet'', JObj [(''topLevelComment'',
       JObj [(''snippet'', JObj [(''textDisplay'', JStr s)])])])]"

definition success_response :: "json list \<Rightarrow> json option \<Rightarrow> response" where
  "success_response its cursor =
     \<lparr>status_code = 200,
      body = Some (JObj ((''items'', JArr its) #
               (case cursor of None \<Rightarrow> [] | Some c \<Rightarrow> [(''nextPageToken'', c)])))\<rparr>"


section \<open>Sentiment labelling: \<open>analyze_comments\<close> (app.py, lines 93-103)\<close>

text \<open>A row of the data frame.\<close>

record comment_row =
  comment :: json
  sentiment :: int

text \<open>
  The call \<^verbatim>\<open>sia.polarity_scores(c)["compound"]\<close> (line 100). The scorer is an external
  library. On a string it returns a score, a real number, given by the parameter
  \<open>compound\<close> of the model. On a value of any other type it asks its argument for the
  method \<^verbatim>\<open>encode\<close>, which only a string has among the decoded values, and the
  attribute lookup raises \<^verbatim>\<open>AttributeError\<close>.
\<close>

definition polarity_compound :: "(string \<Rightarrow> real) \<Rightarrow> json \<Rightarrow> py_exception + real" where
  "polarity_compound compound c =
     (case c of JStr s \<Rightarrow> Inr (compound s) | _ \<Rightarrow> Inl AttributeError)"

text \<open>
  The \<^verbatim>\<open>for\<close> loop appending one row per comment to \<open>rows\<close> (lines 99-102); an
  exception of the scorer leaves the loop and the function.
\<close>

fun analyze_rows ::
  "(string \<Rightarrow> real) \<Rightarrow> json list \<Rightarrow> comment_row list \<Rightarrow> py_exception + comment_row list" where
  "analyze_rows compound [] rows = Inr rows"
| "analyze_rows compound (c # cs) rows =
     (case polarity_compound compound c of
        Inl e \<Rightarrow> Inl e
      | Inr score \<Rightarrow>
          analyze_rows compound cs
            (rows @ [\<lparr>comment = c, sentiment = (if score \<ge> 0 then 1 else 0)\<rparr>]))"

definition analyze_comments ::
  "(string \<Rightarrow> real) \<Rightarrow> json list \<Rightarrow> py_exception + comment_row list" where
  "analyze_comments compound comments = analyze_rows compound comments []"

text \<open>A comment that is a string.\<close>

definition is_text :: "json \<Rightarrow> bool" where
  "is_text c = (case c of JStr s \<Rightarrow> True | _ \<Rightarrow> False)"


section \<open>The route: \<open>fetch_route\<close> (app.py, lines 111-178)\<close>

text \<open>
  The outcome of the view function: a JSON error body with its status, a file download,
  or an exception that leaves the function. The body of a 500 answer is \<^verbatim>\<open>str(exc)\<close>;
  the model keeps the exception.
\<close>

datatype error_body = Message string | Exception_text py_exception

datatype 'b http_result =
    Json_error error_body nat
  | Send_file 'b string string
  | Unhandled py_exception

text \<open>
  The serializers of pandas are external; \<open>encode\<close> gives the bytes of the file for a
  format, or the exception raised while writing it.
\<close>

type_synonym 'b encoder = "string \<Rightarrow> comment_row list \<Rightarrow> py_exception + 'b"

definition lower_char :: "char \<Rightarrow> char" where
  "lower_char c =
     (let n = (of_char c :: nat) in if 65 \<le> n \<and> n \<le> 90 then char_of (n + 32) else c)"

text \<open>
  \<^verbatim>\<open>x.lower()\<close>: only a string has the method. The letters \<^verbatim>\<open>A\<close> to \<^verbatim>\<open>Z\<close> are
  lowered; the result is only compared with the four format names, which no other
  character is lowered into.
\<close>

definition py_lower :: "json \<Rightarrow> py_exception + string" where
  "py_lower v = (case v of JStr s \<Rightarrow> Inr (map lower_char s) | _ \<Rightarrow> Inl AttributeError)"

definition download_name :: "string \<Rightarrow> string" where
  "download_name file_format =
     (if file_format = ''xlsx'' then ''yt_comments.xlsx''
      else if file_format = ''csv'' then ''yt_comments.csv''
      else if file_format = ''json'' then ''yt_comments.json''
      else ''yt_comments.html'')"

definition mimetype :: "string \<Rightarrow> string" where
  "mimetype file_format =
     (if file_format = ''xlsx''
      then ''application/vnd.openxmlformats-officedocument.spreadsheetml.sheet''
      else if file_format = ''csv'' then ''text/csv''
      else if file_format = ''json'' then ''application/json''
      else ''text/html'')"

text \<open>
  The call \<^verbatim>\<open>extract_video_id(video_url)\<close> on a decoded value: a false value returns
  \<open>None\<close> at once, a string is searched, and for any other value \<^verbatim>\<open>re.search\<close> raises
  \<^verbatim>\<open>TypeError\<close>.
\<close>

definition extract_video_id_of :: "json \<Rightarrow> py_exception + string option" where
  "extract_video_id_of video_url =
     (if \<not> truthy video_url then Inr None
      else case video_url of JStr s \<Rightarrow> Inr (extract_video_id (Some s)) | _ \<Rightarrow> Inl TypeError)"

text \<open>
  The pipeline, lines 137-178 of \<open>fetch_route\<close>: extract the id, fetch, label, encode.
  The extraction is outside the \<^verbatim>\<open>try\<close> block; \<^verbatim>\<open>if not vid\<close> holds of \<open>None\<close> and
  of the empty string; every exception raised inside the \<^verbatim>\<open>try\<close> block is answered with
  status 500. A result carries the state of the service and the requests
  sent; \<open>None\<close> means that the fetch never returns.
\<close>

definition invalid_id :: "'b http_result" where
  "invalid_id =
     Json_error (Message ''Could not extract video id. Provide a full YouTube URL or video id.'')
       400"

definition fetch_route_pipeline ::
  "'w transport \<Rightarrow> (string \<Rightarrow> real) \<Rightarrow> 'b encoder \<Rightarrow> json \<Rightarrow> json \<Rightarrow> string \<Rightarrow> 'w \<Rightarrow>
     ('b http_result \<times> 'w \<times> request list) option" where
  "fetch_route_pipeline get compound encode api_key video_url file_format w =
     (case extract_video_id_of video_url of
        Inl e \<Rightarrow> Some (Unhandled e, w, [])
      | Inr None \<Rightarrow> Some (invalid_id, w, [])
      | Inr (Some vid) \<Rightarrow>
          if vid = [] then Some (invalid_id, w, [])
          else
            (case fetch_all_comments get w vid api_key 100 of
               None \<Rightarrow> None
             | Some (Inl e, w', sent) \<Rightarrow> Some (Json_error (Exception_text e) 500, w', sent)
             | Some (Inr comments, w', sent) \<Rightarrow>
                 (case analyze_comments compound comments of
                    Inl e \<Rightarrow> Some (Json_error (Exception_text e) 500, w', sent)
                  | Inr df \<Rightarrow>
                      (case encode file_format df of
                         Inl e \<Rightarrow> Some (Json_error (Exception_text e) 500, w', sent)
                       | Inr buffer \<Rightarrow>
                           Some (Send_file buffer (download_name file_format)
                                   (mimetype file_format),
                                 w', sent)))))"

text \<open>
  The whole view function. \<open>payload\<close> is the result of
  \<^verbatim>\<open>request.get_json(silent=True)\<close>, \<open>None\<close> when the request has no JSON body.
\<close>

definition fetch_route ::
  "'w transport \<Rightarrow> (string \<Rightarrow> real) \<Rightarrow> 'b encoder \<Rightarrow> json option \<Rightarrow> 'w \<Rightarrow>
     ('b http_result \<times> 'w \<times> request list) option" where
  "fetch_route get compound encode payload w =
     (case payload of
        None \<Rightarrow> Some (Json_error (Message ''Invalid JSON payload'') 400, w, [])
      | Some data \<Rightarrow>
          if \<not> truthy data then Some (Json_error (Message ''Invalid JSON payload'') 400, w, [])
          else
            (case dict_get data ''api_key'' JNull of
               Inl e \<Rightarrow> Some (Unhandled e, w, [])
             | Inr api_key \<Rightarrow>
                 (case dict_get data ''video_url'' JNull of
                    Inl e \<Rightarrow> Some (Unhandled e, w, [])
                  | Inr video_url \<Rightarrow>
                      (case dict_get data ''format'' JNull of
                         Inl e \<Rightarrow> Some (Unhandled e, w, [])
                       | Inr fmt \<Rightarrow>
                           (case py_lower (if truthy fmt then fmt else JStr ''csv'') of
                              Inl e \<Rightarrow> Some (Unhandled e, w, [])
                            | Inr file_format \<Rightarrow>
                                if \<not> truthy api_key then
                                  Some (Json_error (Message ''Missing api_key'') 400, w, [])
                                else if \<not> truthy video_url then
                                  Some (Json_error (Message ''Missing video_url'') 400, w, [])
                                else if file_format \<notin> set [''csv'', ''json'', ''xlsx'', ''html''] then
                                  Some (Json_error (Message ''Unsupported format'') 400, w, [])
                                else
                                  fetch_route_pipeline get compound encode api_key video_url
                                    file_format w)))))"


section \<open>Properties of the identifier extraction\<close>

lemma idchar_separators:
  "idchar (CHR ''/'') = False" "idchar (CHR ''='') = False" "idchar (CHR 0x0A) = False"
  by (simp_all add: idchar_def)

lemma try_markers_group: "try_markers ms s = Some g \<Longrightarrow> id_group g"
  by (induction ms) (auto split: if_splits)

lemma search_marker_group: "search_marker s = Some g \<Longrightarrow> id_group g"
  by (induction s) (auto split: option.splits dest: try_markers_group)

lemma search_tail_group: "search_tail s = Some g \<Longrightarrow> id_group g"
  by (induction s) (auto split: if_splits simp: tail_at_def)

lemma extract_video_id_group: "extract_video_id u = Some g \<Longrightarrow> id_group g"
  by (auto simp: extract_video_id_def split: option.splits if_splits
      dest: search_marker_group search_tail_group)

text \<open>Every marker contains a character outside the class.\<close>

lemma marker_not_idchars: "m \<in> set markers \<Longrightarrow> prefix m s \<Longrightarrow> \<not> list_all idchar s"
  by (auto simp: markers_def prefix_def idchar_def)

lemma try_markers_idchars:
  "list_all idchar s \<Longrightarrow> set ms \<subseteq> set markers \<Longrightarrow> try_markers ms s = None"
  by (induction ms) (auto dest: marker_not_idchars)

lemma search_marker_idchars: "list_all idchar s \<Longrightarrow> search_marker s = None"
  by (induction s) (auto simp: try_markers_idchars split: option.splits)

lemma search_tail_id: "id_group s \<Longrightarrow> search_tail s = Some s"
  by (cases s) (auto simp: tail_at_def id_group_def)

lemma extract_video_id_bare: "id_group s \<Longrightarrow> extract_video_id (Some s) = Some s"
  by (auto simp: extract_video_id_def search_marker_idchars search_tail_id id_group_def)

text \<open>
  Claim C10. A string of exactly eleven characters of \<^verbatim>\<open>[A-Za-z0-9_-]\<close> is returned
  unchanged by \<open>extract_video_id\<close>; and since every result of \<open>extract_video_id\<close> is such
  a string, extracting from a result gives the result again.
\<close>

theorem extract_video_id_idempotent:
  "(id_group s \<longrightarrow> extract_video_id (Some s) = Some s) \<and>
   (extract_video_id u = Some v \<longrightarrow> id_group v \<and> extract_video_id (Some v) = Some v)"
  using extract_video_id_bare extract_video_id_group by blast

theorem extract_video_id_idempotent_witness:
  "id_group ''dQw4w9WgXcQ'' \<and>
   extract_video_id (Some ''dQw4w9WgXcQ'') = Some ''dQw4w9WgXcQ'' \<and>
   extract_video_id (Some ''https://youtu.be/dQw4w9WgXcQ?t=9'') = Some ''dQw4w9WgXcQ''"
proof -
  have g: "id_group ''dQw4w9WgXcQ''"
    by (simp add: id_group_def idchar_def)
  have u: "extract_video_id (Some ''https://youtu.be/dQw4w9WgXcQ?t=9'') = Some ''dQw4w9WgXcQ''"
    by (simp add: extract_video_id_def markers_def id_group_def idchar_def)
  show ?thesis
    using g u
      extract_video_id_idempotent [of "''dQw4w9WgXcQ''"
        "Some ''https://youtu.be/dQw4w9WgXcQ?t=9''" "''dQw4w9WgXcQ''"]
    by simp
qed


subsection \<open>URL shapes\<close>

lemma try_markers_Some:
  "try_markers ms s = Some g \<Longrightarrow>
     \<exists>m\<in>set ms. prefix m s \<and> g = take 11 (drop (length m) s) \<and> id_group g"
  by (induction ms) (auto split: if_splits)

lemma try_markers_None:
  "try_markers ms s = None \<Longrightarrow> m \<in> set ms \<Longrightarrow> prefix m s \<Longrightarrow>
     \<not> id_group (take 11 (drop (length m) s))"
  by (induction ms) (auto split: if_splits)

lemma marker_shape:
  "m \<in> set markers \<Longrightarrow> m \<noteq> [] \<and> \<not> idchar (last m) \<and> length m \<le> 9"
  by (auto simp: markers_def idchar_def)

text \<open>At a marker followed by the token, the pattern matches and captures the token.\<close>

lemma try_markers_at_marker:
  assumes t: "id_group t" and m: "m \<in> set markers"
  shows "try_markers markers (m @ t @ q) = Some t"
proof -
  from t have lt: "length t = 11" by (simp add: id_group_def)
  from m consider "m = ''v=''" | "m = ''v/''" | "m = ''embed/''" | "m = ''youtu.be/''"
    | "m = ''/v/''"
    by (auto simp: markers_def)
  then show ?thesis
    by cases (simp_all add: markers_def lt t)
qed

text \<open>
  A match that starts before the marker either lies wholly before the marker's last
  character, which is outside the class, or ends its own marker at that character and
  captures the token as well.
\<close>

lemma try_markers_before:
  assumes t: "id_group t" and m: "m \<in> set markers" and u: "u \<noteq> []"
    and none: "try_markers markers (u @ butlast m) = None"
    and some: "try_markers markers (u @ m @ t @ q) = Some g"
  shows "g = t"
proof -
  define a where "a = u @ butlast m"
  define x where "x = last m"
  have mx: "m = butlast m @ [x]" and nx: "\<not> idchar x"
    using marker_shape[OF m] by (simp_all add: x_def)
  have s: "u @ m @ t @ q = a @ x # t @ q"
    using mx by (metis a_def append.assoc append_Cons append_Nil)
  from try_markers_Some[OF some] obtain m' where m': "m' \<in> set markers"
    and pre: "prefix m' (a @ x # t @ q)"
    and g: "g = take 11 (drop (length m') (a @ x # t @ q))" and idg: "id_group g"
    unfolding s by blast
  have lt: "length t = 11" and allt: "\<forall>c\<in>set t. idchar c"
    using t by (auto simp: id_group_def list_all_iff)
  from pre consider (inside) "prefix m' a"
    | (exact) "m' = a @ [x]"
    | (beyond) w where "m' = a @ x # w" "w \<noteq> []" "prefix w (t @ q)"
  proof -
    from pre have "prefix m' a \<or> (\<exists>us. m' = a @ us \<and> prefix us (x # t @ q))"
      by (simp add: prefix_append)
    then show ?thesis
    proof
      assume "prefix m' a" then show ?thesis by (rule inside)
    next
      assume "\<exists>us. m' = a @ us \<and> prefix us (x # t @ q)"
      then obtain us where us: "m' = a @ us" "prefix us (x # t @ q)" by blast
      show ?thesis
      proof (cases us)
        case Nil
        with us have "prefix m' a" by simp
        then show ?thesis by (rule inside)
      next
        case (Cons y w)
        with us have yx: "y = x" and pw: "prefix w (t @ q)" by simp_all
        show ?thesis
        proof (cases "w = []")
          case True
          then show ?thesis using exact us(1) Cons yx by simp
        next
          case False
          then show ?thesis using beyond[of w] us(1) Cons yx pw by simp
        qed
      qed
    qed
  qed
  then show ?thesis
  proof cases
    case inside
    show ?thesis
    proof (cases "11 \<le> length (drop (length m') a)")
      case True
      then have "g = take 11 (drop (length m') a)"
        using g inside by (auto simp: prefix_def)
      then show ?thesis
        using try_markers_None[OF none[folded a_def] m' inside] idg by simp
    next
      case False
      then have "x \<in> set g"
        using g inside by (auto simp: prefix_def take_Cons')
      then show ?thesis using idg nx by (auto simp: id_group_def list_all_iff)
    qed
  next
    case exact
    then show ?thesis using g lt by simp
  next
    case beyond
    have "length w < 11" using marker_shape[OF m'] beyond(1) by simp
    then have "prefix w t" using beyond(3) lt by (auto simp: prefix_append)
    then have "last w \<in> set t" using beyond(2) last_in_set set_mono_prefix by blast
    moreover have "last m' = last w" using beyond by simp
    ultimately show ?thesis using marker_shape[OF m'] allt by auto
  qed
qed

lemma search_marker_None_Cons:
  "search_marker (c # cs) = None \<Longrightarrow>
     try_markers markers (c # cs) = None \<and> search_marker cs = None"
  by (simp split: option.splits)

lemma search_marker_embedded:
  "id_group t \<Longrightarrow> m \<in> set markers \<Longrightarrow> search_marker (p @ butlast m) = None \<Longrightarrow>
     search_marker (p @ m @ t @ q) = Some t"
proof (induction p)
  case Nil
  then have "try_markers markers (m @ t @ q) = Some t" by (simp add: try_markers_at_marker)
  then show ?case by (cases "m @ t @ q") simp_all
next
  case (Cons c p)
  from Cons.prems(3) have none: "try_markers markers ((c # p) @ butlast m) = None"
    and rest: "search_marker (p @ butlast m) = None"
    using search_marker_None_Cons[of c "p @ butlast m"] by simp_all
  have ih: "search_marker (p @ m @ t @ q) = Some t"
    using Cons.IH Cons.prems(1,2) rest by simp
  show ?case
  proof (cases "try_markers markers ((c # p) @ m @ t @ q)")
    case None
    then show ?thesis using ih by simp
  next
    case (Some g)
    then have "g = t"
      using try_markers_before[OF Cons.prems(1,2) _ none] by blast
    then show ?thesis using Some by simp
  qed
qed

text \<open>
  Claim C7. Let \<open>t\<close> be a token of eleven characters of \<^verbatim>\<open>[A-Za-z0-9_-]\<close>. The bare
  token is extracted as itself. A URL that embeds the token is a prefix \<open>p\<close>, a marker
  \<open>m\<close> (\<^verbatim>\<open>v=\<close> for \<^verbatim>\<open>watch?v=\<close> URLs, \<^verbatim>\<open>youtu.be/\<close>, \<^verbatim>\<open>embed/\<close>, and \<^verbatim>\<open>/v/\<close> or
  \<^verbatim>\<open>v/\<close>), the token, and any remainder \<open>q\<close>; when the marker pattern finds nothing
  before the marker, \<open>extract_video_id\<close> returns the token.
\<close>

theorem extract_video_id_url_shapes:
  assumes "id_group t" and "m \<in> set markers" and "search_marker (p @ butlast m) = None"
  shows "extract_video_id (Some t) = Some t \<and>
         extract_video_id (Some (p @ m @ t @ q)) = Some t"
proof -
  have bare: "extract_video_id (Some t) = Some t"
    using assms(1) by (rule extract_video_id_bare)
  have "m \<noteq> []" using assms(2) marker_shape by blast
  then have "extract_video_id (Some (p @ m @ t @ q)) = Some t"
    using search_marker_embedded[OF assms, of q] by (simp add: extract_video_id_def)
  with bare show ?thesis by simp
qed

theorem extract_video_id_url_shapes_witness:
  "id_group ''dQw4w9WgXcQ'' \<and> ''v='' \<in> set markers \<and>
   search_marker (''https://www.youtube.com/watch?'' @ butlast ''v='') = None \<and>
   extract_video_id (Some ''https://www.youtube.com/watch?v=dQw4w9WgXcQ&t=42s'')
     = Some ''dQw4w9WgXcQ''"
proof -
  have t: "id_group ''dQw4w9WgXcQ''"
    by (simp add: id_group_def idchar_def)
  have m: "''v='' \<in> set markers"
    by (simp add: markers_def)
  have p: "search_marker (''https://www.youtube.com/watch?'' @ butlast ''v='') = None"
    by (simp add: markers_def id_group_def)
  show ?thesis
    using t m p
      extract_video_id_url_shapes [OF t m p, of "''&t=42s''"]
    by simp
qed

text \<open>The same for the usual address of each shape, with any remainder \<open>q\<close>.\<close>

lemma extract_video_id_usual_urls:
  assumes t: "id_group t"
  shows "extract_video_id (Some (''https://www.youtube.com/watch?v='' @ t @ q)) = Some t"
    and "extract_video_id (Some (''https://youtu.be/'' @ t @ q)) = Some t"
    and "extract_video_id (Some (''https://www.youtube.com/embed/'' @ t @ q)) = Some t"
    and "extract_video_id (Some (''https://www.youtube.com/v/'' @ t @ q)) = Some t"
proof -
  have "search_marker (''https://www.youtube.com/watch?'' @ ''v='' @ t @ q) = Some t"
    by (rule search_marker_embedded[OF t]) (simp_all add: markers_def id_group_def)
  then show "extract_video_id (Some (''https://www.youtube.com/watch?v='' @ t @ q)) = Some t"
    by (simp add: extract_video_id_def)
  have "search_marker (''https://'' @ ''youtu.be/'' @ t @ q) = Some t"
    by (rule search_marker_embedded[OF t]) (simp_all add: markers_def id_group_def)
  then show "extract_video_id (Some (''https://youtu.be/'' @ t @ q)) = Some t"
    by (simp add: extract_video_id_def)
  have "search_marker (''https://www.youtube.com/'' @ ''embed/'' @ t @ q) = Some t"
    by (rule search_marker_embedded[OF t]) (simp_all add: markers_def id_group_def)
  then show "extract_video_id (Some (''https://www.youtube.com/embed/'' @ t @ q)) = Some t"
    by (simp add: extract_video_id_def)
  have "search_marker (''https://www.youtube.com'' @ ''/v/'' @ t @ q) = Some t"
    by (rule search_marker_embedded[OF t]) (simp_all add: markers_def id_group_def)
  then show "extract_video_id (Some (''https://www.youtube.com/v/'' @ t @ q)) = Some t"
    by (simp add: extract_video_id_def)
qed

subsection \<open>The fallback pattern\<close>

lemma drop_snoc_single: "drop n (ys @ [y]) = [z] \<longleftrightarrow> length ys = n \<and> y = z"
proof
  assume a: "drop n (ys @ [y]) = [z]"
  then have "length (drop n (ys @ [y])) = 1" by simp
  then have "length ys = n" by simp
  with a show "length ys = n \<and> y = z" by simp
qed auto

lemma tail_at_iff:
  "tail_at s \<longleftrightarrow> (length (chomp s) = 11 \<and> list_all idchar (chomp s))"
proof (cases s rule: rev_cases)
  case Nil
  then show ?thesis by (simp add: tail_at_def id_group_def chomp_def)
next
  case (snoc ys y)
  show ?thesis
  proof (cases "y = CHR 0x0A")
    case True
    then show ?thesis using snoc
      by (auto simp: tail_at_def id_group_def chomp_def idchar_separators drop_snoc_single
          min_def split: if_splits)
  next
    case False
    then show ?thesis using snoc
      by (auto simp: tail_at_def id_group_def chomp_def idchar_separators drop_snoc_single
          min_def split: if_splits)
  qed
qed

lemma tail_at_take:
  assumes t: "tail_at s"
  shows "take 11 s = chomp s"
proof -
  from t have g: "id_group (take 11 s)" and d: "drop 11 s = [] \<or> drop 11 s = [CHR 0x0A]"
    by (simp_all add: tail_at_def)
  from d show ?thesis
  proof
    assume "drop 11 s = []"
    then have s: "take 11 s = s" by simp
    with g have "s \<noteq> []" and "\<forall>x\<in>set s. idchar x"
      by (auto simp: id_group_def list_all_iff)
    then have "s \<noteq> [] \<and> idchar (last s)" using last_in_set by blast
    then have "chomp s = s" by (auto simp: chomp_def idchar_separators)
    with s show ?thesis by simp
  next
    assume "drop 11 s = [CHR 0x0A]"
    then have "s = take 11 s @ [CHR 0x0A]" by (metis append_take_drop_id)
    then have "chomp s = take 11 s"
      by (metis butlast_snoc chomp_def last_snoc snoc_eq_iff_butlast)
    then show ?thesis by simp
  qed
qed

lemma chomp_Cons: "cs \<noteq> [] \<Longrightarrow> chomp (c # cs) = c # chomp cs"
  by (simp add: chomp_def)

lemma chomp_single: "length (chomp [c]) \<le> 1"
  by (simp add: chomp_def)

text \<open>
  The anchored pattern captures the last eleven characters before the end, or before a
  final newline, when all of them are in the class, and does not match otherwise.
\<close>

lemma search_tail_eq:
  "search_tail s = (if id_group (last11 (chomp s)) then Some (last11 (chomp s)) else None)"
proof (induction s)
  case Nil
  then show ?case by (simp add: tail_at_def id_group_def chomp_def last11_def)
next
  case (Cons c cs)
  show ?case
  proof (cases "tail_at (c # cs)")
    case True
    then show ?thesis
      using tail_at_take[OF True] by (simp add: tail_at_iff id_group_def last11_def)
  next
    case nt: False
    show ?thesis
    proof (cases "cs = []")
      case True
      then show ?thesis
        using nt chomp_single[of c] by (auto simp: id_group_def last11_def tail_at_def)
    next
      case False
      then have ch: "chomp (c # cs) = c # chomp cs" by (rule chomp_Cons)
      show ?thesis
      proof (cases "11 \<le> length (chomp cs)")
        case True
        then have "last11 (c # chomp cs) = last11 (chomp cs)"
          by (simp add: last11_def drop_Cons' Suc_diff_le)
        then show ?thesis using nt Cons.IH ch by simp
      next
        case short: False
        then have "\<not> id_group (last11 (chomp cs))" by (simp add: id_group_def last11_def)
        moreover have "\<not> id_group (last11 (c # chomp cs))"
          using nt short ch by (auto simp: tail_at_iff id_group_def last11_def)
        ultimately show ?thesis using nt Cons.IH ch by simp
      qed
    qed
  qed
qed

text \<open>
  Claim C8, as the claim states it, fails: the eleven characters \<^verbatim>\<open>hello world\<close> hold no
  marker, and the fallback does not return them, because the blank is outside the class.
\<close>

theorem extract_video_id_fallback_counterexample:
  "''hello world'' \<noteq> [] \<and> search_marker ''hello world'' = None \<and>
   last11 ''hello world'' = ''hello world'' \<and>
   extract_video_id (Some ''hello world'') = None"
  by (simp add: extract_video_id_def markers_def tail_at_def id_group_def idchar_def last11_def)

text \<open>
  Claim C8, amended. For a non-empty string on which the marker pattern finds nothing,
  \<open>extract_video_id\<close> returns the last eleven characters of the string, one final
  newline not counted, when there are eleven and all of them are in \<^verbatim>\<open>[A-Za-z0-9_-]\<close>;
  otherwise it returns \<open>None\<close>.
\<close>

theorem extract_video_id_fallback:
  assumes "s \<noteq> []" and "search_marker s = None"
  shows "extract_video_id (Some s) =
           (if id_group (last11 (chomp s)) then Some (last11 (chomp s)) else None)"
  using assms by (simp add: extract_video_id_def search_tail_eq)

theorem extract_video_id_fallback_witness:
  "''see abcdefghijk'' \<noteq> [] \<and> search_marker ''see abcdefghijk'' = None \<and>
   extract_video_id (Some ''see abcdefghijk'') = Some ''abcdefghijk''"
proof -
  have n: "''see abcdefghijk'' \<noteq> []" by simp
  have m: "search_marker ''see abcdefghijk'' = None"
    by (simp add: markers_def id_group_def)
  have l: "last11 (chomp ''see abcdefghijk'') = ''abcdefghijk''"
    by (simp add: last11_def chomp_def)
  have g: "id_group ''abcdefghijk''"
    by (simp add: id_group_def idchar_def)
  show ?thesis
    using n m extract_video_id_fallback [OF n m] l g by simp
qed


section \<open>Properties of the paginated fetch\<close>

subsection \<open>One item, one page\<close>

lemma getpath_TypeError: "getpath v ks = Inl TypeError \<longleftrightarrow> \<not> well_nested v ks"
  by (induction ks arbitrary: v)
    (auto simp: getitem_def split: json.splits option.splits sum.splits)

lemma getpath_errors: "getpath v ks = Inl e \<Longrightarrow> e = KeyError \<or> e = TypeError"
  by (induction ks arbitrary: v)
    (auto simp: getitem_def split: json.splits option.splits sum.splits)

lemma text_display_ok:
  "item_ok it \<Longrightarrow> text_display it = Inl e \<Longrightarrow> e = KeyError"
  using getpath_TypeError getpath_errors unfolding item_ok_def text_display_def by blast

lemma text_display_not_ok: "\<not> item_ok it \<Longrightarrow> text_display it = Inl TypeError"
  using getpath_TypeError unfolding item_ok_def text_display_def by blast

text \<open>
  The loop over well nested items keeps the texts it can extract, in order, and skips
  the other items; one item that is not well nested makes the loop raise.
\<close>

lemma collect_ok:
  "list_all item_ok its \<Longrightarrow> collect its comments = Inr (comments @ List.map_filter text_opt its)"
proof (induction its arbitrary: comments)
  case Nil
  then show ?case by simp
next
  case (Cons it its)
  then have ok: "item_ok it" and rest: "list_all item_ok its" by simp_all
  show ?case
  proof (cases "text_display it")
    case (Inl e)
    then have "e = KeyError" using ok text_display_ok by blast
    then show ?thesis
      using Inl Cons.IH[OF rest] by (simp add: text_opt_def)
  next
    case (Inr tx)
    then show ?thesis
      using Cons.IH[OF rest] by (simp add: text_opt_def)
  qed
qed

lemma collect_not_ok:
  "\<not> list_all item_ok its \<Longrightarrow> collect its comments = Inl TypeError"
proof (induction its arbitrary: comments)
  case Nil
  then show ?case by simp
next
  case (Cons it its)
  show ?case
  proof (cases "item_ok it")
    case True
    then have rest: "\<not> list_all item_ok its" using Cons.prems by simp
    show ?thesis
    proof (cases "text_display it")
      case (Inl e)
      then have "e = KeyError" using True text_display_ok by blast
      then show ?thesis using Inl Cons.IH[OF rest] by simp
    next
      case (Inr tx)
      then show ?thesis using Cons.IH[OF rest] by simp
    qed
  next
    case False
    then show ?thesis by (simp add: text_display_not_ok)
  qed
qed

lemma process_page_ok:
  assumes "page_ok resp"
  shows "process_page resp comments =
           Inr (comments @ extractable_texts resp, next_page_token resp)"
proof -
  from assms obtain kvs where b: "body resp = Some (JObj kvs)" and st: "status_code resp = 200"
    by (auto simp: page_ok_def split: option.splits json.splits)
  show ?thesis
  proof (cases "map_of kvs ''items''")
    case None
    then show ?thesis
      using b st
      by (simp add: process_page_def dict_get_def py_iter_def extractable_texts_def
          page_items_def next_page_token_def split: option.splits)
  next
    case (Some items)
    with assms b obtain its where it: "py_iter items = Inr its" and ok: "list_all item_ok its"
      by (auto simp: page_ok_def split: sum.splits)
    show ?thesis
      using b st Some it collect_ok[OF ok]
      by (simp add: process_page_def dict_get_def extractable_texts_def
          page_items_def next_page_token_def split: option.splits)
  qed
qed

lemma process_page_not_ok:
  assumes "\<not> page_ok resp"
  shows "\<exists>e. process_page resp comments = Inl e"
proof (cases "body resp")
  case None
  then show ?thesis by (simp add: process_page_def)
next
  case (Some data)
  show ?thesis
  proof (cases "status_code resp = 200")
    case False
    then show ?thesis
      using Some by (auto simp: process_page_def split: sum.splits)
  next
    case True
    show ?thesis
    proof (cases data)
      case (JObj kvs)
      show ?thesis
      proof (cases "map_of kvs ''items''")
        case None
        then show ?thesis using assms Some True JObj by (simp add: page_ok_def)
      next
        case items: (Some items)
        show ?thesis
        proof (cases "py_iter items")
          case (Inl e)
          then show ?thesis
            using Some True JObj items by (simp add: process_page_def dict_get_def)
        next
          case (Inr its)
          then have "\<not> list_all item_ok its"
            using assms Some True JObj items by (simp add: page_ok_def)
          then show ?thesis
            using Some True JObj items Inr
            by (simp add: process_page_def dict_get_def collect_not_ok)
        qed
      qed
    qed (use Some True in \<open>simp_all add: process_page_def dict_get_def\<close>)
  qed
qed

subsection \<open>The rounds of the loop\<close>

lemma fetch_loop_transport_error:
  assumes "get w (make_request ps) = (Inl e, w')"
  shows "fetch_loop get ps comments w sent = Some (Inl e, w', sent @ [make_request ps])"
  by (subst fetch_loop.simps) (simp add: assms)

lemma fetch_loop_page_error:
  assumes "get w (make_request ps) = (Inr resp, w')" and "process_page resp comments = Inl e"
  shows "fetch_loop get ps comments w sent = Some (Inl e, w', sent @ [make_request ps])"
  by (subst fetch_loop.simps) (simp add: assms)

lemma fetch_loop_finish:
  assumes "get w (make_request ps) = (Inr resp, w')" and "page_ok resp"
    and "\<not> truthy (next_page_token resp)"
  shows "fetch_loop get ps comments w sent =
           Some (Inr (comments @ extractable_texts resp), w', sent @ [make_request ps])"
  by (subst fetch_loop.simps) (simp add: assms process_page_ok)

lemma fetch_loop_continue:
  assumes "get w (make_request ps) = (Inr resp, w')" and "page_ok resp"
    and "truthy (next_page_token resp)"
  shows "fetch_loop get ps comments w sent =
           fetch_loop get (ps\<lparr>pageToken := Some (next_page_token resp)\<rparr>)
             (comments @ extractable_texts resp) w' (sent @ [make_request ps])"
  by (subst fetch_loop.simps) (simp add: assms process_page_ok)

text \<open>The same rounds for a service that answers by position.\<close>

lemma stream_transport_error:
  assumes "srv i = Inl e"
  shows "fetch_loop (stream_get srv) ps comments i sent =
           Some (Inl e, Suc i, sent @ [make_request ps])"
  by (subst fetch_loop.simps) (simp add: assms stream_get_def)

lemma stream_page_error:
  assumes "srv i = Inr resp" and "process_page resp comments = Inl e"
  shows "fetch_loop (stream_get srv) ps comments i sent =
           Some (Inl e, Suc i, sent @ [make_request ps])"
  by (subst fetch_loop.simps) (simp add: assms stream_get_def)

lemma stream_finish:
  assumes "srv i = Inr resp" and "page_ok resp" and "\<not> truthy (next_page_token resp)"
  shows "fetch_loop (stream_get srv) ps comments i sent =
           Some (Inr (comments @ extractable_texts resp), Suc i, sent @ [make_request ps])"
  by (subst fetch_loop.simps) (simp add: assms stream_get_def process_page_ok)

lemma stream_continue:
  assumes "srv i = Inr resp" and "page_ok resp" and "truthy (next_page_token resp)"
  shows "fetch_loop (stream_get srv) ps comments i sent =
           fetch_loop (stream_get srv) (ps\<lparr>pageToken := Some (next_page_token resp)\<rparr>)
             (comments @ extractable_texts resp) (Suc i) (sent @ [make_request ps])"
  by (subst fetch_loop.simps) (simp add: assms stream_get_def process_page_ok)

lemma sent_requests_snoc:
  "sent_requests ps (rs @ [r]) = sent_requests ps rs @ [make_request (params_after ps rs)]"
  by (induction rs arbitrary: ps) simp_all

text \<open>
  Over a run of success pages that all carry a cursor the loop collects their texts in
  order and arrives at the page after them.
\<close>

lemma fetch_loop_pages:
  assumes "\<forall>k<length pre. srv (i + k) = Inr (pre ! k)"
    and "list_all (\<lambda>r. page_ok r \<and> truthy (next_page_token r)) pre"
  shows "fetch_loop (stream_get srv) ps comments i sent =
           fetch_loop (stream_get srv) (params_after ps pre)
             (comments @ concat (map extractable_texts pre)) (i + length pre)
             (sent @ sent_requests ps pre)"
  using assms
proof (induction pre arbitrary: i ps comments sent)
  case Nil
  then show ?case by simp
next
  case (Cons r pre)
  from Cons.prems(1) have here: "srv i = Inr r" by force
  from Cons.prems(1) have later: "\<forall>k<length pre. srv (Suc i + k) = Inr (pre ! k)" by force
  from Cons.prems(2) have ok: "page_ok r" "truthy (next_page_token r)"
    and rest: "list_all (\<lambda>r. page_ok r \<and> truthy (next_page_token r)) pre" by simp_all
  have "fetch_loop (stream_get srv) ps comments i sent =
          fetch_loop (stream_get srv) (ps\<lparr>pageToken := Some (next_page_token r)\<rparr>)
            (comments @ extractable_texts r) (Suc i) (sent @ [make_request ps])"
    using here ok by (rule stream_continue)
  also have "\<dots> =
          fetch_loop (stream_get srv)
            (params_after (ps\<lparr>pageToken := Some (next_page_token r)\<rparr>) pre)
            ((comments @ extractable_texts r) @ concat (map extractable_texts pre))
            (Suc i + length pre)
            ((sent @ [make_request ps]) @
               sent_requests (ps\<lparr>pageToken := Some (next_page_token r)\<rparr>) pre)"
    using later rest by (rule Cons.IH)
  finally show ?case by simp
qed

lemma script_nth: "k < length pages \<Longrightarrow> script pages k = Inr (pages ! k)"
  by (simp add: script_def)

lemma fetch_script_pages:
  assumes "pages \<noteq> []" and "list_all page_ok pages"
    and "list_all (\<lambda>r. truthy (next_page_token r)) (butlast pages)"
    and "\<not> truthy (next_page_token (last pages))"
  shows "fetch_all_comments (stream_get (script pages)) 0 video_id api_key n =
           Some (Inr (concat (map extractable_texts pages)), length pages,
                 sent_requests (initial_params video_id api_key n) pages)"
proof -
  from assms(1) obtain pre l where pages: "pages = pre @ [l]"
    by (cases pages rule: rev_cases) auto
  have run: "list_all (\<lambda>r. page_ok r \<and> truthy (next_page_token r)) pre"
    using assms(2,3) pages by (auto simp: list_all_iff)
  have lok: "page_ok l" "\<not> truthy (next_page_token l)"
    using assms(2,4) pages by simp_all
  have nth: "\<forall>k<length pre. script pages (0 + k) = Inr (pre ! k)"
    by (simp add: script_nth pages nth_append)
  have l: "script pages (length pre) = Inr l"
    by (simp add: script_nth pages)
  let ?ps = "initial_params video_id api_key n"
  have "fetch_loop (stream_get (script pages)) ?ps [] 0 [] =
          fetch_loop (stream_get (script pages)) (params_after ?ps pre)
            ([] @ concat (map extractable_texts pre)) (0 + length pre)
            ([] @ sent_requests ?ps pre)"
    using nth run by (rule fetch_loop_pages)
  also have "\<dots> =
          Some (Inr (([] @ concat (map extractable_texts pre)) @ extractable_texts l),
                Suc (0 + length pre),
                ([] @ sent_requests ?ps pre) @ [make_request (params_after ?ps pre)])"
    unfolding add_0 using l lok by (rule stream_finish)
  finally show ?thesis
    by (simp add: fetch_all_comments_def pages sent_requests_snoc)
qed

lemma process_page_failure:
  assumes "failure_page resp"
  shows "process_page resp comments =
           Inl (RuntimeError (YouTube_API_error (failure_message resp)))"
proof -
  from assms have st: "status_code resp \<noteq> 200"
    by (simp add: failure_page_def)
  from assms obtain kvs where b: "body resp = Some (JObj kvs)"
    by (cases "body resp"; cases "the (body resp)") (simp_all add: failure_page_def)
  show ?thesis
  proof (cases "map_of kvs ''error''")
    case None
    then show ?thesis
      using st b by (simp add: process_page_def failure_message_def dict_get_def)
  next
    case (Some v)
    with assms b obtain e where v: "v = JObj e"
      by (cases v) (simp_all add: failure_page_def)
    show ?thesis
      using st b Some v
      by (cases "map_of e ''message''")
        (simp_all add: process_page_def failure_message_def dict_get_def)
  qed
qed

lemma fetch_script_failure:
  assumes "list_all (\<lambda>r. page_ok r \<and> truthy (next_page_token r)) pre"
    and "failure_page resp"
  shows "fetch_all_comments (stream_get (script (pre @ resp # rest))) 0 video_id api_key n =
           Some (Inl (RuntimeError (YouTube_API_error (failure_message resp))),
                 Suc (length pre),
                 sent_requests (initial_params video_id api_key n) (pre @ [resp]))"
proof -
  have nth: "\<forall>k<length pre. script (pre @ resp # rest) (0 + k) = Inr (pre ! k)"
    by (simp add: script_nth nth_append)
  have r: "script (pre @ resp # rest) (length pre) = Inr resp"
    by (simp add: script_nth)
  let ?srv = "script (pre @ resp # rest)"
  let ?ps = "initial_params video_id api_key n"
  let ?e = "RuntimeError (YouTube_API_error (failure_message resp))"
  have "fetch_loop (stream_get ?srv) ?ps [] 0 [] =
          fetch_loop (stream_get ?srv) (params_after ?ps pre)
            ([] @ concat (map extractable_texts pre)) (0 + length pre)
            ([] @ sent_requests ?ps pre)"
    using nth assms(1) by (rule fetch_loop_pages)
  also have "\<dots> =
          Some (Inl ?e, Suc (0 + length pre),
                ([] @ sent_requests ?ps pre) @ [make_request (params_after ?ps pre)])"
    unfolding add_0 using r process_page_failure[OF assms(2)] by (rule stream_page_error)
  finally show ?thesis
    by (simp add: fetch_all_comments_def sent_requests_snoc)
qed

subsection \<open>Whole runs\<close>

lemma thread_item_text [simp]: "text_display (thread_item s) = Inr (JStr s)"
  by (simp add: thread_item_def text_display_def getitem_def)

lemma thread_item_ok [simp]: "item_ok (thread_item s)"
  by (simp add: thread_item_def item_ok_def)

lemma success_response_simps [simp]:
  "status_code (success_response its cursor) = 200"
  "page_items (success_response its cursor) = its"
  "next_page_token (success_response its None) = JNull"
  "next_page_token (success_response its (Some c)) = c"
  "page_ok (success_response its cursor) = list_all item_ok its"
  by (simp_all add: success_response_def page_items_def next_page_token_def page_ok_def
      py_iter_def)

text \<open>
  The example of the specification: three pages of a hundred comment threads each, the
  first two with a cursor, give the three hundred texts in page order.
\<close>

lemma extractable_texts_threads:
  "extractable_texts (success_response (map thread_item xs) cursor) = map JStr xs"
  by (induction xs) (simp_all add: extractable_texts_def text_opt_def)

lemma fetch_three_pages:
  assumes "length xs = 100" and "length ys = 100" and "length zs = 100"
    and "truthy c1" and "truthy c2"
  shows "\<exists>sent. fetch_all_comments (stream_get (script
            [success_response (map thread_item xs) (Some c1),
             success_response (map thread_item ys) (Some c2),
             success_response (map thread_item zs) None]))
            0 video_id api_key 100
          = Some (Inr (map JStr (xs @ ys @ zs)), 3, sent) \<and>
          length sent = 3 \<and> length (map JStr (xs @ ys @ zs)) = 300"
proof -
  let ?pages = "[success_response (map thread_item xs) (Some c1),
             success_response (map thread_item ys) (Some c2),
             success_response (map thread_item zs) None]"
  have 1: "?pages \<noteq> []" by simp
  have 2: "list_all page_ok ?pages" by (simp add: list_all_iff)
  have 3: "list_all (\<lambda>r. truthy (next_page_token r)) (butlast ?pages)"
    using assms(4,5) by simp
  have 4: "\<not> truthy (next_page_token (last ?pages))" by simp
  show ?thesis
    using fetch_script_pages[OF 1 2 3 4, of video_id api_key 100] assms(1,2,3)
    by (simp add: extractable_texts_threads)
qed

text \<open>
  Claim C1, as the claim states it, fails, in two ways. In the first run the first page
  carries the member \<^verbatim>\<open>nextPageToken\<close> with the empty string as value and only the
  last page lacks the member: the texts of the two pages are \<^verbatim>\<open>a\<close> and \<^verbatim>\<open>b\<close>, and
  the fetch returns \<^verbatim>\<open>a\<close> alone. In the second run the only page lacks the member and
  holds an item whose \<^verbatim>\<open>snippet\<close> is \<open>null\<close>: the extractable text of the page is
  \<^verbatim>\<open>a\<close>, and the fetch does not succeed.
\<close>

theorem fetch_all_comments_page_order_counterexample:
  "concat (map extractable_texts
      [success_response [thread_item ''a''] (Some (JStr [])),
       success_response [thread_item ''b''] None]) = [JStr ''a'', JStr ''b''] \<and>
   map_option fst (fetch_all_comments (stream_get (script
      [success_response [thread_item ''a''] (Some (JStr [])),
       success_response [thread_item ''b''] None]))
      0 ''dQw4w9WgXcQ'' (JStr ''key'') 100) = Some (Inr [JStr ''a'']) \<and>
   concat (map extractable_texts
      [success_response [thread_item ''a'', JObj [(''snippet'', JNull)]] None]) = [JStr ''a''] \<and>
   map_option fst (fetch_all_comments (stream_get (script
      [success_response [thread_item ''a'', JObj [(''snippet'', JNull)]] None]))
      0 ''dQw4w9WgXcQ'' (JStr ''key'') 100) = Some (Inl TypeError)"
proof -
  let ?p = "success_response [thread_item ''a''] (Some (JStr []))"
  let ?q = "success_response [thread_item ''b''] None"
  let ?r = "success_response [thread_item ''a'', JObj [(''snippet'', JNull)]] None"
  have t: "text_display (JObj [(''snippet'', JNull)]) = Inl TypeError"
    by (simp add: text_display_def getitem_def)
  have a: "concat (map extractable_texts [?p, ?q]) = [JStr ''a'', JStr ''b'']"
    by (simp add: extractable_texts_def text_opt_def)
  have sp: "script [?p, ?q] 0 = Inr ?p" by (simp add: script_def)
  have okp: "page_ok ?p" by simp
  have tokp: "\<not> truthy (next_page_token ?p)" by simp
  have b: "map_option fst (fetch_all_comments (stream_get (script [?p, ?q]))
      0 ''dQw4w9WgXcQ'' (JStr ''key'') 100) = Some (Inr [JStr ''a''])"
    using stream_finish[where srv = "script [?p, ?q]" and i = 0, OF sp okp tokp]
    by (simp add: fetch_all_comments_def extractable_texts_def text_opt_def)
  have c: "concat (map extractable_texts [?r]) = [JStr ''a'']"
    by (simp add: extractable_texts_def text_opt_def t)
  have sr: "script [?r] 0 = Inr ?r" by (simp add: script_def)
  have pr: "process_page ?r [] = Inl TypeError"
    by (simp add: process_page_def success_response_def dict_get_def py_iter_def t)
  have d: "map_option fst (fetch_all_comments (stream_get (script [?r]))
      0 ''dQw4w9WgXcQ'' (JStr ''key'') 100) = Some (Inl TypeError)"
    by (simp add: fetch_all_comments_def
        stream_page_error[where srv = "script [?r]" and i = 0, OF sr pr])
  from a b c d show ?thesis by simp
qed

text \<open>
  Claim C1, amended. Let the service answer with a finite, non-empty list of success
  pages (status 200, the body an object, the items well nested), of which every page but
  the last carries a cursor that Python takes as true (a non-empty
  \<^verbatim>\<open>nextPageToken\<close>) and the last one carries none (the member is absent or false).
  Then \<open>fetch_all_comments\<close> returns, its result is the concatenation of the
  extractable texts of the pages, in page order and within a page in item order, and it
  has sent one request per page, each after the first with the cursor of the page before.
\<close>

theorem fetch_all_comments_page_order:
  assumes "pages \<noteq> []" and "list_all page_ok pages"
    and "list_all (\<lambda>r. truthy (next_page_token r)) (butlast pages)"
    and "\<not> truthy (next_page_token (last pages))"
  shows "fetch_all_comments (stream_get (script pages)) 0 video_id api_key n =
           Some (Inr (concat (map extractable_texts pages)), length pages,
                 sent_requests (initial_params video_id api_key n) pages)"
  using assms by (rule fetch_script_pages)

theorem fetch_all_comments_page_order_witness:
  "map_option fst (fetch_all_comments (stream_get (script
      [success_response [thread_item ''a'', thread_item ''b''] (Some (JStr ''p2'')),
       success_response [thread_item ''c'', thread_item ''d''] (Some (JStr ''p3'')),
       success_response [thread_item ''e'', thread_item ''f''] None]))
      0 ''dQw4w9WgXcQ'' (JStr ''key'') 100)
   = Some (Inr [JStr ''a'', JStr ''b'', JStr ''c'', JStr ''d'', JStr ''e'', JStr ''f''])"
proof -
  let ?pages =
    "[success_response [thread_item ''a'', thread_item ''b''] (Some (JStr ''p2'')),
      success_response [thread_item ''c'', thread_item ''d''] (Some (JStr ''p3'')),
      success_response [thread_item ''e'', thread_item ''f''] None]"
  have 1: "?pages \<noteq> []" by simp
  have 2: "list_all page_ok ?pages" by simp
  have 3: "list_all (\<lambda>r. truthy (next_page_token r)) (butlast ?pages)" by simp
  have 4: "\<not> truthy (next_page_token (last ?pages))" by simp
  show ?thesis
    using fetch_all_comments_page_order [OF 1 2 3 4, of "''dQw4w9WgXcQ''" "JStr ''key''" 100]
    by (simp add: extractable_texts_def text_opt_def)
qed

text \<open>
  Claim C2, as the claim states it, fails: a response with status 503 whose body is not
  JSON makes the fetch fail with the invalid-response error, raised before the status is
  looked at, and not with an API error that carries \<^verbatim>\<open>HTTP 503\<close>.
\<close>

theorem fetch_all_comments_api_error_counterexample:
  "status_code \<lparr>status_code = 503, body = None\<rparr> \<noteq> 200 \<and>
   failure_message \<lparr>status_code = 503, body = None\<rparr> = JStr ''HTTP 503'' \<and>
   map_option fst (fetch_all_comments (stream_get (script [\<lparr>status_code = 503, body = None\<rparr>]))
      0 ''dQw4w9WgXcQ'' (JStr ''key'') 100)
   = Some (Inl (RuntimeError Invalid_JSON_response))"
proof -
  have m: "failure_message \<lparr>status_code = 503, body = None\<rparr> = JStr ''HTTP 503''"
    by (simp add: failure_message_def str_int_def str_nat.simps)
  have s: "script [\<lparr>status_code = 503, body = None\<rparr>] 0 = Inr \<lparr>status_code = 503, body = None\<rparr>"
    by (simp add: script_def)
  have p: "process_page \<lparr>status_code = 503, body = None\<rparr> [] =
             Inl (RuntimeError Invalid_JSON_response)"
    by (simp add: process_page_def)
  show ?thesis
    using m
    by (simp add: fetch_all_comments_def
        stream_page_error[where srv = "script [\<lparr>status_code = 503, body = None\<rparr>]" and i = 0, OF s p])
qed

text \<open>
  Claim C2, amended. Let the service answer with success pages that carry a cursor and
  then with a response whose status is not 200 and whose body is a JSON object with no
  \<^verbatim>\<open>error\<close> member or with an object as \<^verbatim>\<open>error\<close> member. Then
  \<open>fetch_all_comments\<close> fails with the API error that carries the \<^verbatim>\<open>message\<close> member of
  the error payload, or \<^verbatim>\<open>HTTP <status>\<close> when there is none; the result is the error
  alone, without any of the comments of the earlier pages, and no further request is sent.
\<close>

theorem fetch_all_comments_api_error:
  assumes "list_all (\<lambda>r. page_ok r \<and> truthy (next_page_token r)) pre"
    and "failure_page resp"
  shows "fetch_all_comments (stream_get (script (pre @ resp # rest))) 0 video_id api_key n =
           Some (Inl (RuntimeError (YouTube_API_error (failure_message resp))),
                 Suc (length pre),
                 sent_requests (initial_params video_id api_key n) (pre @ [resp]))"
  using assms by (rule fetch_script_failure)

theorem fetch_all_comments_api_error_witness:
  "map_option fst (fetch_all_comments (stream_get (script
      ([success_response [thread_item ''a''] (Some (JStr ''p2''))] @
       \<lparr>status_code = 403,
        body = Some (JObj [(''error'', JObj [(''message'', JStr ''quota exceeded'')])])\<rparr> #
       [success_response [thread_item ''c''] None])))
      0 ''dQw4w9WgXcQ'' (JStr ''key'') 100)
   = Some (Inl (RuntimeError (YouTube_API_error (JStr ''quota exceeded'')))) \<and>
   map_option fst (fetch_all_comments (stream_get (script
      ([] @ \<lparr>status_code = 404, body = Some (JObj [])\<rparr> # [])))
      0 ''dQw4w9WgXcQ'' (JStr ''key'') 100)
   = Some (Inl (RuntimeError (YouTube_API_error (JStr ''HTTP 404''))))"
proof -
  let ?bad = "\<lparr>status_code = 403,
        body = Some (JObj [(''error'', JObj [(''message'', JStr ''quota exceeded'')])])\<rparr>"
  let ?bare = "\<lparr>status_code = 404, body = Some (JObj [])\<rparr>"
  have 1: "list_all (\<lambda>r. page_ok r \<and> truthy (next_page_token r))
             [success_response [thread_item ''a''] (Some (JStr ''p2''))]" by simp
  have 2: "failure_page ?bad" by (simp add: failure_page_def)
  have 3: "failure_message ?bad = JStr ''quota exceeded''" by (simp add: failure_message_def)
  have 4: "list_all (\<lambda>r. page_ok r \<and> truthy (next_page_token r)) []" by simp
  have 5: "failure_page ?bare" by (simp add: failure_page_def)
  have 6: "failure_message ?bare = JStr ''HTTP 404''"
    by (simp add: failure_message_def str_int_def str_nat.simps)
  show ?thesis
    using fetch_all_comments_api_error [OF 1 2, of "[success_response [thread_item ''c''] None]"
        "''dQw4w9WgXcQ''" "JStr ''key''" 100]
      fetch_all_comments_api_error [OF 4 5, of "[]" "''dQw4w9WgXcQ''" "JStr ''key''" 100]
    by (simp add: 3 6)
qed

text \<open>
  Claim C4, as the claim states it, fails: from an item whose \<^verbatim>\<open>snippet\<close> member is
  \<open>null\<close> no text can be extracted, and the item is not skipped; the subscript raises
  \<^verbatim>\<open>TypeError\<close>, which is not caught, and the whole fetch fails.
\<close>

theorem process_page_skips_counterexample:
  "text_opt (JObj [(''snippet'', JNull)]) = None \<and>
   status_code (success_response [thread_item ''a'', JObj [(''snippet'', JNull)]] None) = 200 \<and>
   map_option fst (fetch_all_comments (stream_get (script
      [success_response [thread_item ''a'', JObj [(''snippet'', JNull)]] None]))
      0 ''dQw4w9WgXcQ'' (JStr ''key'') 100)
   = Some (Inl TypeError)"
proof -
  let ?page = "success_response [thread_item ''a'', JObj [(''snippet'', JNull)]] None"
  have t: "text_display (JObj [(''snippet'', JNull)]) = Inl TypeError"
    by (simp add: text_display_def getitem_def)
  have s: "script [?page] 0 = Inr ?page"
    by (simp add: script_def)
  have p: "process_page ?page [] = Inl TypeError"
    by (simp add: process_page_def success_response_def dict_get_def py_iter_def t)
  show ?thesis
    using t
    by (simp add: fetch_all_comments_def text_opt_def
        stream_page_error[where srv = "script [?page]" and i = 0, OF s p])
qed

text \<open>
  Claim C4, amended. On a page with status 200 whose items are well nested (each of the
  members \<^verbatim>\<open>snippet\<close>, \<^verbatim>\<open>topLevelComment\<close>, \<^verbatim>\<open>snippet\<close> on the path to the text is
  absent or an object), one round of the loop does not fail: every item in which a member
  on the path is absent is skipped, the other items are still processed, and the page
  adds exactly the texts of its extractable items, in order, to the comments.
\<close>

theorem process_page_skips_items:
  assumes "status_code resp = 200" and "body resp = Some (JObj kvs)"
    and "map_of kvs ''items'' = Some (JArr its)" and "list_all item_ok its"
  shows "process_page resp comments =
           Inr (comments @ List.map_filter text_opt its, next_page_token resp)"
proof -
  have ok: "page_ok resp"
    using assms by (simp add: page_ok_def py_iter_def)
  have "extractable_texts resp = List.map_filter text_opt its"
    using assms(2,3) by (simp add: extractable_texts_def page_items_def py_iter_def)
  with process_page_ok[OF ok] show ?thesis by simp
qed

theorem process_page_skips_items_witness:
  "process_page
     (success_response
        [thread_item ''a'', thread_item ''b'', JObj [(''snippet'', JObj [])],
         thread_item ''d'', thread_item ''e''] None) []
   = Inr ([JStr ''a'', JStr ''b'', JStr ''d'', JStr ''e''], JNull)"
proof -
  let ?its = "[thread_item ''a'', thread_item ''b'', JObj [(''snippet'', JObj [])],
         thread_item ''d'', thread_item ''e'']"
  have 1: "status_code (success_response ?its None) = 200" by simp
  have 2: "body (success_response ?its None) = Some (JObj [(''items'', JArr ?its)])"
    by (simp add: success_response_def)
  have 3: "map_of [(''items'', JArr ?its)] ''items'' = Some (JArr ?its)" by simp
  have "item_ok (JObj [(''snippet'', JObj [])])" by (simp add: item_ok_def)
  then have 4: "list_all item_ok ?its" by simp
  have 5: "text_display (JObj [(''snippet'', JObj [])]) = Inl KeyError"
    by (simp add: text_display_def getitem_def)
  show ?thesis
    using process_page_skips_items [OF 1 2 3 4, of "[]"]
    by (simp add: text_opt_def 5)
qed

subsection \<open>Termination of the loop\<close>

lemma length_sent_requests [simp]: "length (sent_requests ps rs) = length rs"
  by (induction rs arbitrary: ps) simp_all

text \<open>While the answers let the loop continue, it moves on to the next answer.\<close>

lemma stream_run:
  "\<forall>j<n. continues (srv (i + j)) \<Longrightarrow>
     \<exists>ps' comments' sent'.
       fetch_loop (stream_get srv) ps comments i sent =
       fetch_loop (stream_get srv) ps' comments' (i + n) sent'"
proof (induction n arbitrary: i ps comments sent)
  case 0
  then show ?case by auto
next
  case (Suc n)
  from Suc.prems have "continues (srv (i + 0))" by blast
  then obtain resp where here: "srv i = Inr resp" and ok: "page_ok resp"
    and tok: "truthy (next_page_token resp)"
    by (cases "srv i") (auto simp: continues_def)
  have later: "\<forall>j<n. continues (srv (Suc i + j))"
    using Suc.prems by (metis Suc_less_eq add_Suc_shift)
  from Suc.IH[OF later] obtain ps' comments' sent' where
    "fetch_loop (stream_get srv) (ps\<lparr>pageToken := Some (next_page_token resp)\<rparr>)
       (comments @ extractable_texts resp) (Suc i) (sent @ [make_request ps]) =
     fetch_loop (stream_get srv) ps' comments' (Suc i + n) sent'"
    by blast
  then show ?case
    using stream_continue[where srv = srv and i = i, OF here ok tok, of ps comments sent] by auto
qed

text \<open>At an answer that does not let the loop continue, the loop returns.\<close>

lemma stream_stop:
  assumes "\<not> continues (srv i)"
  shows "\<exists>res sent'. fetch_loop (stream_get srv) ps comments i sent = Some (res, Suc i, sent') \<and>
           ((\<exists>cs. res = Inr cs) \<longleftrightarrow> finishes (srv i))"
proof (cases "srv i")
  case (Inl e)
  then show ?thesis
    using stream_transport_error[where srv = srv and i = i, OF Inl, of ps comments sent]
    by (simp add: finishes_def)
next
  case (Inr resp)
  show ?thesis
  proof (cases "page_ok resp")
    case True
    then have "\<not> truthy (next_page_token resp)"
      using assms Inr by (simp add: continues_def)
    then show ?thesis
      using stream_finish[where srv = srv and i = i, OF Inr True, of ps comments sent] Inr True
      by (simp add: finishes_def)
  next
    case False
    then obtain e where "process_page resp comments = Inl e"
      using process_page_not_ok by blast
    then show ?thesis
      using stream_page_error[where srv = srv and i = i, OF Inr, of comments e ps sent] Inr False
      by (simp add: finishes_def)
  qed
qed

text \<open>
  If the loop returns, some answer did not let it continue; and if it returns comments,
  the first such answer is a success page without a cursor.
\<close>

lemma stream_returns:
  assumes "fetch_loop get ps comments i sent = Some y"
  shows "get = stream_get srv \<longrightarrow>
           (\<exists>n. (\<forall>j<n. continues (srv (i + j))) \<and> \<not> continues (srv (i + n)) \<and>
                ((\<exists>cs. fst y = Inr cs) \<longrightarrow> finishes (srv (i + n))))"
  using assms
proof (induction get ps comments i sent y
    rule: fetch_loop.raw_induct[rotated 1, consumes 1, case_names round])
  case (round loop get ps comments i sent y)
  show ?case
  proof
    assume get: "get = stream_get srv"
    have stop: "\<exists>n. (\<forall>j<n. continues (srv (i + j))) \<and> \<not> continues (srv (i + n)) \<and>
                ((\<exists>cs. fst y = Inr cs) \<longrightarrow> finishes (srv (i + n)))"
      if "\<not> continues (srv i)" and "(\<exists>cs. fst y = Inr cs) \<longrightarrow> finishes (srv i)"
    proof -
      have "(\<forall>j<0. continues (srv (i + j))) \<and> \<not> continues (srv (i + 0)) \<and>
                ((\<exists>cs. fst y = Inr cs) \<longrightarrow> finishes (srv (i + 0)))"
        using that by simp
      then show ?thesis by blast
    qed
    show "\<exists>n. (\<forall>j<n. continues (srv (i + j))) \<and> \<not> continues (srv (i + n)) \<and>
                ((\<exists>cs. fst y = Inr cs) \<longrightarrow> finishes (srv (i + n)))"
    proof (cases "srv i")
      case (Inl e)
      then have "fst y = Inl e"
        using round(2) get by (auto simp: stream_get_def)
      then show ?thesis
        using Inl by (intro stop) (simp_all add: continues_def)
    next
      case (Inr resp)
      show ?thesis
      proof (cases "page_ok resp")
        case False
        then obtain e where "process_page resp comments = Inl e"
          using process_page_not_ok by blast
        then have "fst y = Inl e"
          using round(2) get Inr by (auto simp: stream_get_def)
        then show ?thesis
          using Inr False by (intro stop) (simp_all add: continues_def)
      next
        case True
        note pp = process_page_ok[OF True, of comments]
        show ?thesis
        proof (cases "truthy (next_page_token resp)")
          case False
          then show ?thesis
            using Inr True by (intro stop) (simp_all add: continues_def finishes_def)
        next
          case tok: True
          have "loop get (ps\<lparr>pageToken := Some (next_page_token resp)\<rparr>)
                  (comments @ extractable_texts resp) (Suc i) (sent @ [make_request ps]) = Some y"
            using round(2) get Inr pp tok by (simp add: stream_get_def)
          from round(1)[OF this] get obtain n where
            n: "\<forall>j<n. continues (srv (Suc i + j))" "\<not> continues (srv (Suc i + n))"
              "(\<exists>cs. fst y = Inr cs) \<longrightarrow> finishes (srv (Suc i + n))"
            by blast
          have here: "continues (srv i)"
            using Inr True tok by (simp add: continues_def)
          have "\<forall>j<Suc n. continues (srv (i + j))"
          proof (intro allI impI)
            fix j assume "j < Suc n"
            then show "continues (srv (i + j))"
              using here n(1) by (cases j) simp_all
          qed
          moreover have "\<not> continues (srv (i + Suc n))" using n(2) by simp
          moreover have "(\<exists>cs. fst y = Inr cs) \<longrightarrow> finishes (srv (i + Suc n))"
            using n(3) by simp
          ultimately show ?thesis by blast
        qed
      qed
    qed
  qed
qed

lemma stream_first_stop:
  assumes "\<forall>j<n. continues (srv j)" and "\<not> continues (srv n)"
  shows "\<exists>res w sent. fetch_all_comments (stream_get srv) 0 video_id api_key m =
             Some (res, w, sent) \<and> ((\<exists>cs. res = Inr cs) \<longleftrightarrow> finishes (srv n))"
proof -
  let ?ps = "initial_params video_id api_key m"
  from assms(1) have "\<forall>j<n. continues (srv (0 + j))" by simp
  from stream_run[OF this] obtain ps' comments' sent' where
    run: "fetch_loop (stream_get srv) ?ps [] 0 [] =
          fetch_loop (stream_get srv) ps' comments' (0 + n) sent'"
    by blast
  from stream_stop[where srv = srv and i = n, OF assms(2)] obtain res sent'' where
    "fetch_loop (stream_get srv) ps' comments' n sent' = Some (res, Suc n, sent'')"
    "(\<exists>cs. res = Inr cs) \<longleftrightarrow> finishes (srv n)"
    by blast
  then show ?thesis
    using run by (auto simp: fetch_all_comments_def)
qed

lemma finishes_not_continues: "finishes r \<Longrightarrow> \<not> continues r"
  by (cases r) (simp_all add: finishes_def continues_def)

lemma stream_returns_comments_iff:
  "(\<exists>cs w sent. fetch_all_comments (stream_get srv) 0 video_id api_key m =
        Some (Inr cs, w, sent)) \<longleftrightarrow>
   (\<exists>n. (\<forall>j<n. continues (srv j)) \<and> finishes (srv n))"
proof
  assume "\<exists>cs w sent. fetch_all_comments (stream_get srv) 0 video_id api_key m =
        Some (Inr cs, w, sent)"
  then obtain cs w sent where
    "fetch_loop (stream_get srv) (initial_params video_id api_key m) [] 0 [] =
       Some (Inr cs, w, sent)"
    by (auto simp: fetch_all_comments_def)
  from stream_returns[OF this, of srv] show "\<exists>n. (\<forall>j<n. continues (srv j)) \<and> finishes (srv n)"
    by auto
next
  assume "\<exists>n. (\<forall>j<n. continues (srv j)) \<and> finishes (srv n)"
  then obtain n where n: "\<forall>j<n. continues (srv j)" "finishes (srv n)" by blast
  from stream_first_stop[OF n(1) finishes_not_continues[OF n(2)], of video_id api_key m] n(2)
  show "\<exists>cs w sent. fetch_all_comments (stream_get srv) 0 video_id api_key m =
        Some (Inr cs, w, sent)"
    by auto
qed

lemma stream_diverges_iff:
  "fetch_all_comments (stream_get srv) 0 video_id api_key m = None \<longleftrightarrow>
   (\<forall>n. continues (srv n))"
proof
  assume none: "fetch_all_comments (stream_get srv) 0 video_id api_key m = None"
  show "\<forall>n. continues (srv n)"
  proof (rule ccontr)
    assume "\<not> (\<forall>n. continues (srv n))"
    then have "\<exists>n. \<not> continues (srv n)" by simp
    then obtain n where "\<not> continues (srv n)" and "\<forall>j<n. continues (srv j)"
      using exists_least_iff[of "\<lambda>n. \<not> continues (srv n)"] by auto
    from stream_first_stop[OF this(2,1), of video_id api_key m] none show False by auto
  qed
next
  assume all: "\<forall>n. continues (srv n)"
  show "fetch_all_comments (stream_get srv) 0 video_id api_key m = None"
  proof (cases "fetch_all_comments (stream_get srv) 0 video_id api_key m")
    case None
    then show ?thesis .
  next
    case (Some y)
    then have "fetch_loop (stream_get srv) (initial_params video_id api_key m) [] 0 [] = Some y"
      by (simp add: fetch_all_comments_def)
    from stream_returns[OF this, of srv] all show ?thesis by auto
  qed
qed

text \<open>No number of pages is the last one the loop is willing to fetch.\<close>

lemma fetch_unbounded:
  "\<exists>pages cs w sent.
     fetch_all_comments (stream_get (script pages)) 0 video_id api_key m = Some (Inr cs, w, sent) \<and>
     N < length sent"
proof -
  let ?pages = "replicate N (success_response [] (Some (JStr ''next''))) @ [success_response [] None]"
  have 1: "?pages \<noteq> []" by simp
  have 2: "list_all page_ok ?pages" by (simp add: list_all_iff)
  have 3: "list_all (\<lambda>r. truthy (next_page_token r)) (butlast ?pages)"
    by (simp add: list_all_iff butlast_append)
  have 4: "\<not> truthy (next_page_token (last ?pages))" by simp
  from fetch_script_pages[OF 1 2 3 4, of video_id api_key m] show ?thesis
    by (intro exI conjI) (assumption, simp)
qed

text \<open>
  Claim C3, as the claim states it, fails: the absence of the cursor member is not the
  only signal. The first page below carries the member \<^verbatim>\<open>nextPageToken\<close> with the empty
  string as value; the loop returns after it with the comment of that page alone, having
  sent one request, although the service holds a second page.
\<close>

theorem fetch_all_comments_termination_counterexample:
  "body (success_response [thread_item ''a''] (Some (JStr ''''))) =
     Some (JObj [(''items'', JArr [thread_item ''a'']), (''nextPageToken'', JStr '''')]) \<and>
   fetch_all_comments (stream_get (script
      [success_response [thread_item ''a''] (Some (JStr '''')),
       success_response [thread_item ''b''] None]))
      0 ''dQw4w9WgXcQ'' (JStr ''key'') 100
   = Some (Inr [JStr ''a''], 1, [make_request (initial_params ''dQw4w9WgXcQ'' (JStr ''key'') 100)])"
proof -
  let ?p = "success_response [thread_item ''a''] (Some (JStr ''''))"
  let ?srv = "script [?p, success_response [thread_item ''b''] None]"
  have s: "?srv 0 = Inr ?p" by (simp add: script_def)
  have ok: "page_ok ?p" by simp
  have tok: "\<not> truthy (next_page_token ?p)" by simp
  show ?thesis
    using stream_finish[where srv = ?srv and i = 0, OF s ok tok]
    by (simp add: fetch_all_comments_def success_response_def extractable_texts_def
        page_items_def py_iter_def text_opt_def)
qed

text \<open>
  Claim C3, amended. Let the service answer its \<open>n\<close>-th request with \<open>srv n\<close>. The loop
  of \<open>fetch_all_comments\<close> returns the comments exactly when some answer is a success page
  whose \<^verbatim>\<open>nextPageToken\<close> is absent or a value that Python takes as false (\<open>null\<close>, the
  empty string, zero, \<open>false\<close>, an empty list or object), all answers before it being
  success pages with a cursor. It runs forever exactly when every answer is a success page
  with a cursor. There is no cap on the pages: for every number \<open>N\<close> some list of pages
  makes the loop send more than \<open>N\<close> requests and return.
\<close>

theorem fetch_all_comments_termination:
  "((\<exists>cs w sent. fetch_all_comments (stream_get srv) 0 video_id api_key m =
        Some (Inr cs, w, sent)) \<longleftrightarrow>
    (\<exists>n. (\<forall>j<n. continues (srv j)) \<and> finishes (srv n))) \<and>
   (fetch_all_comments (stream_get srv) 0 video_id api_key m = None \<longleftrightarrow>
    (\<forall>n. continues (srv n))) \<and>
   (\<exists>pages cs w sent.
      fetch_all_comments (stream_get (script pages)) 0 video_id api_key m =
        Some (Inr cs, w, sent) \<and> N < length sent)"
  using stream_returns_comments_iff[of srv video_id api_key m]
    stream_diverges_iff[of srv video_id api_key m] fetch_unbounded[of video_id api_key m N]
  by blast

theorem fetch_all_comments_termination_witness:
  "(\<exists>n. (\<forall>j<n. continues (script
        [success_response [thread_item ''a''] (Some (JStr ''p2'')),
         success_response [thread_item ''b''] None] j)) \<and>
      finishes (script
        [success_response [thread_item ''a''] (Some (JStr ''p2'')),
         success_response [thread_item ''b''] None] n)) \<and>
   \<not> (\<forall>n. continues (script
        [success_response [thread_item ''a''] (Some (JStr ''p2'')),
         success_response [thread_item ''b''] None] n))"
proof -
  let ?pages = "[success_response [thread_item ''a''] (Some (JStr ''p2'')),
         success_response [thread_item ''b''] None]"
  have 1: "?pages \<noteq> []" by simp
  have 2: "list_all page_ok ?pages" by simp
  have 3: "list_all (\<lambda>r. truthy (next_page_token r)) (butlast ?pages)" by simp
  have 4: "\<not> truthy (next_page_token (last ?pages))" by simp
  note run = fetch_script_pages[OF 1 2 3 4, of "''dQw4w9WgXcQ''" "JStr ''key''" 100]
  have some: "\<exists>cs w sent. fetch_all_comments (stream_get (script ?pages)) 0 ''dQw4w9WgXcQ''
      (JStr ''key'') 100 = Some (Inr cs, w, sent)"
    using run by blast
  have notnone: "fetch_all_comments (stream_get (script ?pages)) 0 ''dQw4w9WgXcQ''
      (JStr ''key'') 100 \<noteq> None"
    using run by simp
  note inst = fetch_all_comments_termination [of "script ?pages" "''dQw4w9WgXcQ''"
      "JStr ''key''" 100 0]
  from some inst[THEN conjunct1] have a:
    "\<exists>n. (\<forall>j<n. continues (script ?pages j)) \<and> finishes (script ?pages n)"
    by (rule rev_iffD1)
  from notnone inst[THEN conjunct2, THEN conjunct1] have b:
    "\<not> (\<forall>n. continues (script ?pages n))"
    by simp
  from a b show ?thesis by (rule conjI)
qed


section \<open>Properties of the sentiment labelling\<close>

text \<open>
  On comments that are all strings the loop returns one row per comment; a comment that
  is not a string makes it raise.
\<close>

lemma analyze_rows_texts:
  "analyze_rows compound (map JStr ss) rows =
     Inr (rows @ map (\<lambda>s. \<lparr>comment = JStr s,
                          sentiment = (if compound s \<ge> 0 then 1 else 0)\<rparr>) ss)"
  by (induction ss arbitrary: rows) (simp_all add: polarity_compound_def)

lemma analyze_rows_not_text:
  "\<not> list_all is_text cs \<Longrightarrow> analyze_rows compound cs rows = Inl AttributeError"
proof (induction cs arbitrary: rows)
  case Nil
  then show ?case by simp
next
  case (Cons c cs)
  show ?case
  proof (cases "is_text c")
    case True
    then obtain s where "c = JStr s"
      by (cases c) (simp_all add: is_text_def)
    then show ?thesis
      using Cons by (simp add: polarity_compound_def is_text_def)
  next
    case False
    then show ?thesis
      by (cases c) (simp_all add: polarity_compound_def is_text_def)
  qed
qed

lemma texts_map_JStr: "list_all is_text cs \<Longrightarrow> \<exists>ss. cs = map JStr ss"
proof (induction cs)
  case Nil
  then show ?case by simp
next
  case (Cons c cs)
  then obtain ss where ss: "cs = map JStr ss" by auto
  from Cons.prems obtain s where "c = JStr s"
    by (cases c) (simp_all add: is_text_def)
  with ss have "c # cs = map JStr (s # ss)" by simp
  then show ?case by (rule exI[where x = "s # ss"])
qed

text \<open>Rows are returned for the lists of strings and for no other list of comments.\<close>

lemma analyze_comments_returns_iff:
  "(\<exists>rows. analyze_comments compound cs = Inr rows) \<longleftrightarrow> (\<exists>ss. cs = map JStr ss)"
proof
  assume r: "\<exists>rows. analyze_comments compound cs = Inr rows"
  have "list_all is_text cs"
  proof (rule ccontr)
    assume "\<not> list_all is_text cs"
    then have "analyze_comments compound cs = Inl AttributeError"
      by (simp add: analyze_comments_def analyze_rows_not_text)
    with r show False by simp
  qed
  then show "\<exists>ss. cs = map JStr ss" by (rule texts_map_JStr)
next
  assume "\<exists>ss. cs = map JStr ss"
  then show "\<exists>rows. analyze_comments compound cs = Inr rows"
    by (auto simp: analyze_comments_def analyze_rows_texts)
qed

text \<open>
  Claim C5. For comments that the scorer scores, that is, strings,
  \<open>analyze_comments\<close> returns rows, and the row of the \<open>i\<close>-th comment has sentiment 1
  exactly when the score of that comment is at least 0, and sentiment 0 exactly when the
  score is below 0; the score itself is compared, so a score of exactly 0 gives
  sentiment 1.
\<close>

theorem analyze_comments_threshold:
  assumes "i < length ss"
  shows "\<exists>rows. analyze_comments compound (map JStr ss) = Inr rows \<and>
           comment (rows ! i) = JStr (ss ! i) \<and>
           (sentiment (rows ! i) = 1 \<longleftrightarrow> compound (ss ! i) \<ge> 0) \<and>
           (sentiment (rows ! i) = 0 \<longleftrightarrow> compound (ss ! i) < 0) \<and>
           (compound (ss ! i) = 0 \<longrightarrow> sentiment (rows ! i) = 1)"
  using assms by (simp add: analyze_comments_def analyze_rows_texts)

theorem analyze_comments_threshold_witness:
  "(2::nat) < length [''great video!'', ''terrible, hated it'', ''ok''] \<and>
   (\<lambda>c. if c = ''great video!'' then 0.65 else if c = ''ok'' then 0 else - 0.8 :: real)
      ([''great video!'', ''terrible, hated it'', ''ok''] ! 2) = 0 \<and>
   analyze_comments
      (\<lambda>c. if c = ''great video!'' then 0.65 else if c = ''ok'' then 0 else - 0.8)
      (map JStr [''great video!'', ''terrible, hated it'', ''ok''])
   = Inr [\<lparr>comment = JStr ''great video!'', sentiment = 1\<rparr>,
          \<lparr>comment = JStr ''terrible, hated it'', sentiment = 0\<rparr>,
          \<lparr>comment = JStr ''ok'', sentiment = 1\<rparr>]"
proof -
  let ?f = "\<lambda>c. if c = ''great video!'' then 0.65 else if c = ''ok'' then 0 else - 0.8 :: real"
  let ?ss = "[''great video!'', ''terrible, hated it'', ''ok'']"
  have i: "(2::nat) < length ?ss" by simp
  from analyze_comments_threshold [OF i, of ?f] obtain rows where
    rows: "analyze_comments ?f (map JStr ?ss) = Inr rows"
    and last: "sentiment (rows ! 2) = 1 \<longleftrightarrow> ?f (?ss ! 2) \<ge> 0"
    by blast
  have "analyze_comments ?f (map JStr ?ss) =
          Inr [\<lparr>comment = JStr ''great video!'', sentiment = 1\<rparr>,
               \<lparr>comment = JStr ''terrible, hated it'', sentiment = 0\<rparr>,
               \<lparr>comment = JStr ''ok'', sentiment = 1\<rparr>]"
    by (simp add: analyze_comments_def polarity_compound_def)
  with i rows last show ?thesis by simp
qed

text \<open>
  Claim C6, as the claim states it, fails: the text of a comment is collected as it is,
  whatever its type. From the page below \<open>fetch_all_comments\<close> collects the number 42;
  on this list of collected comments \<open>analyze_comments\<close> raises and returns no row.
\<close>

theorem analyze_comments_one_to_one_counterexample:
  "map_option fst (fetch_all_comments (stream_get (script
      [success_response
         [JObj [(''snippet'', JObj [(''topLevelComment'',
            JObj [(''snippet'', JObj [(''textDisplay'', JInt 42)])])])]] None]))
      0 ''dQw4w9WgXcQ'' (JStr ''key'') 100)
   = Some (Inr [JInt 42]) \<and>
   analyze_comments (\<lambda>s. 0) [JInt 42] = Inl AttributeError"
proof -
  let ?it = "JObj [(''snippet'', JObj [(''topLevelComment'',
            JObj [(''snippet'', JObj [(''textDisplay'', JInt 42)])])])]"
  let ?pages = "[success_response [?it] None]"
  have t: "text_display ?it = Inr (JInt 42)"
    by (simp add: text_display_def getitem_def)
  have ok: "item_ok ?it" by (simp add: item_ok_def)
  have 1: "?pages \<noteq> []" by simp
  have 2: "list_all page_ok ?pages" using ok by simp
  have 3: "list_all (\<lambda>r. truthy (next_page_token r)) (butlast ?pages)" by simp
  have 4: "\<not> truthy (next_page_token (last ?pages))" by simp
  have "map_option fst (fetch_all_comments (stream_get (script ?pages))
      0 ''dQw4w9WgXcQ'' (JStr ''key'') 100) = Some (Inr [JInt 42])"
    using fetch_script_pages[OF 1 2 3 4, of "''dQw4w9WgXcQ''" "JStr ''key''" 100]
    by (simp add: extractable_texts_def text_opt_def t)
  moreover have "analyze_comments (\<lambda>s. 0) [JInt 42] = Inl AttributeError"
    by (simp add: analyze_comments_def polarity_compound_def)
  ultimately show ?thesis by simp
qed

text \<open>
  Claim C6, amended. For every ordered sequence of collected comments that are all
  strings, \<open>analyze_comments\<close> returns as many rows as there are comments, and the
  comments of the rows, read in order, are the input: nothing is dropped, merged,
  reordered or deduplicated.
\<close>

theorem analyze_comments_one_to_one:
  "\<exists>rows. analyze_comments compound (map JStr ss) = Inr rows \<and>
          length rows = length ss \<and> map comment rows = map JStr ss"
  by (simp add: analyze_comments_def analyze_rows_texts comp_def)

theorem analyze_comments_one_to_one_witness:
  "\<exists>rows. analyze_comments (\<lambda>s. 0) (map JStr [''first'', ''second'', ''first'']) = Inr rows \<and>
          length rows = 3 \<and>
          map comment rows = [JStr ''first'', JStr ''second'', JStr ''first'']"
  using analyze_comments_one_to_one [of "\<lambda>s. 0" "[''first'', ''second'', ''first'']"]
  by (simp add: numeral_3_eq_3)


section \<open>Properties of the route\<close>

text \<open>
  Claim C9. When no video id can be extracted from the raw input \<open>s\<close>, the pipeline
  answers with the invalid-id error, for every service, leaving the state of the
  service as it was and sending no request; so does \<open>fetch_route\<close> for a payload that
  passes its checks of the fields.
\<close>

theorem fetch_route_invalid_id:
  assumes "extract_video_id (Some s) = None"
  shows "fetch_route_pipeline get compound encode api_key (JStr s) file_format w =
           Some (invalid_id, w, []) \<and>
         (truthy api_key \<and> s \<noteq> [] \<and> map_of kvs ''api_key'' = Some api_key \<and>
          map_of kvs ''video_url'' = Some (JStr s) \<and> map_of kvs ''format'' = None \<longrightarrow>
          fetch_route get compound encode (Some (JObj kvs)) w = Some (invalid_id, w, []))"
proof -
  have p: "fetch_route_pipeline get compound encode api_key (JStr s) ff w =
           Some (invalid_id, w, [])" for ff
    using assms by (simp add: fetch_route_pipeline_def extract_video_id_of_def)
  have low: "py_lower (JStr ''csv'') = Inr ''csv''"
    by (simp add: py_lower_def lower_char_def)
  show ?thesis
    using p by (auto simp: fetch_route_def dict_get_def low)
qed

theorem fetch_route_invalid_id_witness:
  "extract_video_id (Some ''not a video'') = None \<and>
   fetch_route (stream_get (script [])) (\<lambda>c. 0) (\<lambda>f rows. Inr rows)
     (Some (JObj [(''api_key'', JStr ''k''), (''video_url'', JStr ''not a video'')])) 0
   = Some (invalid_id, 0, [])"
proof -
  have e: "extract_video_id (Some ''not a video'') = None"
    by (simp add: extract_video_id_def markers_def tail_at_def id_group_def idchar_def)
  show ?thesis
    using e fetch_route_invalid_id [OF e, of "stream_get (script [])" "\<lambda>c. 0"
        "\<lambda>f rows. Inr rows" "JStr ''k''" "''csv''" 0
        "[(''api_key'', JStr ''k''), (''video_url'', JStr ''not a video'')]"]
    by simp
qed

text \<open>
  A comment that is not a string: the fetch collects it, the scorer raises inside the
  \<^verbatim>\<open>try\<close> block, and the route answers with status 500, whatever the encoder.
\<close>

lemma fetch_route_pipeline_non_text:
  "map_option fst (fetch_route_pipeline (stream_get (script
      [success_response
         [JObj [(''snippet'', JObj [(''topLevelComment'',
            JObj [(''snippet'', JObj [(''textDisplay'', JInt 42)])])])]] None]))
      compound encode (JStr ''key'') (JStr ''dQw4w9WgXcQ'') ''csv'' 0)
   = Some (Json_error (Exception_text AttributeError) 500)"
proof -
  let ?it = "JObj [(''snippet'', JObj [(''topLevelComment'',
            JObj [(''snippet'', JObj [(''textDisplay'', JInt 42)])])])]"
  let ?pages = "[success_response [?it] None]"
  have t: "text_display ?it = Inr (JInt 42)"
    by (simp add: text_display_def getitem_def)
  have ok: "item_ok ?it" by (simp add: item_ok_def)
  have 1: "?pages \<noteq> []" by simp
  have 2: "list_all page_ok ?pages" using ok by simp
  have 3: "list_all (\<lambda>r. truthy (next_page_token r)) (butlast ?pages)" by simp
  have 4: "\<not> truthy (next_page_token (last ?pages))" by simp
  have f: "fetch_all_comments (stream_get (script ?pages)) 0 ''dQw4w9WgXcQ'' (JStr ''key'') 100 =
             Some (Inr [JInt 42], 1,
                   sent_requests (initial_params ''dQw4w9WgXcQ'' (JStr ''key'') 100) ?pages)"
    using fetch_script_pages[OF 1 2 3 4, of "''dQw4w9WgXcQ''" "JStr ''key''" 100]
    by (simp add: extractable_texts_def text_opt_def t)
  have g: "id_group ''dQw4w9WgXcQ''" by (simp add: id_group_def idchar_def)
  have v: "extract_video_id_of (JStr ''dQw4w9WgXcQ'') = Inr (Some ''dQw4w9WgXcQ'')"
    using extract_video_id_bare[OF g] by (simp add: extract_video_id_of_def)
  have a: "analyze_comments compound [JInt 42] = Inl AttributeError"
    by (simp add: analyze_comments_def polarity_compound_def)
  show ?thesis
    by (simp add: fetch_route_pipeline_def v f a)
qed

end
